theory Spec2Isabelle
  imports Complex_Main "HOL-Library.Sublist"
begin

section \<open>JavaScript values used by the dashboard\<close>

text \<open>
  The client is \<^verbatim>\<open>src/Frontend/app.js\<close>. Optional object fields are modelled as
  \<open>option\<close> values (\<open>None\<close> is JavaScript's \<^verbatim>\<open>undefined\<close>); strings are byte strings,
  so lengths agree with JavaScript's for ASCII text.
\<close>

definition truthy :: "string option \<Rightarrow> bool" where
  "truthy v = (case v of None \<Rightarrow> False | Some s \<Rightarrow> s \<noteq> [])"

text \<open>\<^verbatim>\<open>a || b\<close> on optional strings.\<close>

definition js_or :: "string option \<Rightarrow> string option \<Rightarrow> string option" where
  "js_or a b = (if truthy a then a else b)"

text \<open>What a template literal \<^verbatim>\<open>`${v}`\<close> prints for an optional string.\<close>

definition js_show :: "string option \<Rightarrow> string" where
  "js_show v = (case v of None \<Rightarrow> ''undefined'' | Some s \<Rightarrow> s)"

definition digit_char :: "nat \<Rightarrow> char" where
  "digit_char d = ''0123456789'' ! d"

function string_of_nat :: "nat \<Rightarrow> string" where
  "string_of_nat n =
     (if n < 10 then [digit_char n] else string_of_nat (n div 10) @ [digit_char (n mod 10)])"
  by pat_completeness auto
termination
  by (relation "measure (\<lambda>n. n)") auto

definition lower_char :: "char \<Rightarrow> char" where
  "lower_char c =
     (case map_of (zip ''ABCDEFGHIJKLMNOPQRSTUVWXYZ'' ''abcdefghijklmnopqrstuvwxyz'') c of
        None \<Rightarrow> c
      | Some l \<Rightarrow> l)"

text \<open>\<^verbatim>\<open>String.prototype.toLowerCase\<close>, on ASCII letters.\<close>

definition toLowerCase :: "string \<Rightarrow> string" where
  "toLowerCase s = map lower_char s"

definition is_space :: "char \<Rightarrow> bool" where
  "is_space c = (c \<in> set [CHR '' '', CHR 0x09, CHR 0x0A, CHR 0x0B, CHR 0x0C, CHR 0x0D])"

text \<open>\<^verbatim>\<open>String.prototype.trim\<close>, on ASCII white space.\<close>

definition trim :: "string \<Rightarrow> string" where
  "trim s = rev (dropWhile is_space (rev (dropWhile is_space s)))"

text \<open>\<^verbatim>\<open>String.prototype.includes\<close>.\<close>

fun js_includes :: "string \<Rightarrow> string \<Rightarrow> bool" where
  "js_includes [] q = (q = [])"
| "js_includes (c # cs) q = (take (length q) (c # cs) = q \<or> js_includes cs q)"

text \<open>
  \<^verbatim>\<open>String.prototype.split(sep)\<close> for a non-empty separator; \<open>acc\<close> holds the characters
  of the piece being read, newest first.
\<close>

fun split_acc :: "string \<Rightarrow> string \<Rightarrow> string \<Rightarrow> string list" where
  "split_acc sep acc [] = [rev acc]"
| "split_acc sep acc (c # cs) =
     (if sep \<noteq> [] \<and> take (length sep) (c # cs) = sep
      then rev acc # split_acc sep [] (drop (length sep) (c # cs))
      else split_acc sep (c # acc) cs)"

definition split :: "string \<Rightarrow> string \<Rightarrow> string list" where
  "split sep s = split_acc sep [] s"

text \<open>The separator \<^verbatim>\<open>' -> '\<close> of a path string: a space, U+2192 in UTF-8, a space.\<close>

definition ARROW_SEP :: string where
  "ARROW_SEP = [CHR '' '', CHR 0xE2, CHR 0x86, CHR 0x92, CHR '' '']"

section \<open>Configuration\<close>

definition TIER_COLORS :: "int \<Rightarrow> string option" where
  "TIER_COLORS t =
     (if t = 0 then Some ''#9333ea''
      else if t = 1 then Some ''#22c55e''
      else if t = 2 then Some ''#3b82f6''
      else if t = 3 then Some ''#f59e0b''
      else if t = 4 then Some ''#ef4444''
      else if t = 5 then Some ''#ec4899''
      else if t = -1 then Some ''#06b6d4''
      else None)"

definition NODE_SHAPES :: "string option \<Rightarrow> string option" where
  "NODE_SHAPES t =
     (if t = Some ''FIELD'' then Some ''dot''
      else if t = Some ''CONCEPT'' then Some ''diamond''
      else None)"

definition HIGHLIGHT_COLOR :: string where
  "HIGHLIGHT_COLOR = ''#fbbf24''"

section \<open>Data model\<close>

text \<open>A node as the backend sends it (only the fields the client reads).\<close>

record raw_node =
  n_id :: string
  n_label :: "string option"
  n_type :: "string option"
  n_tier :: "int option"

text \<open>An edge as the backend sends it.\<close>

record raw_edge =
  e_source :: "string option"
  e_target :: "string option"
  e_from :: "string option"
  e_to :: "string option"
  e_type :: "string option"

record font =
  f_color :: string
  f_size :: nat

text \<open>
  An item of the renderer's node dataset. An item created by \<^verbatim>\<open>update\<close> on an unknown id
  carries only the fields of that update, so every other field may be undefined.
\<close>

record vis_node =
  v_id :: string
  v_label :: "string option"
  v_color :: "string option"
  v_shape :: "string option"
  v_size :: rat
  v_font :: font
  v_tier :: "int option"
  v_type :: "string option"
  v_originalColor :: "string option"
  v_data :: "raw_node option"
  v_hidden :: "bool option"

record edge_color =
  c_color :: string
  c_highlight :: "string option"
  c_opacity :: rat

record vis_edge =
  ve_id :: string
  ve_from :: "string option"
  ve_to :: "string option"
  ve_arrows :: "string option"
  ve_color :: edge_color
  ve_width :: nat
  ve_type :: "string option"

section \<open>The renderer's datasets\<close>

text \<open>
  \<^verbatim>\<open>vis.DataSet\<close> is a library type; it is modelled as the list of its items in insertion
  order, looked up by id. \<^verbatim>\<open>get(id)\<close> yields the item or null, \<^verbatim>\<open>update\<close> merges the
  given fields into the item with that id or, when there is none, adds an item holding
  only those fields, \<^verbatim>\<open>add\<close> appends (the client calls it only after \<^verbatim>\<open>get\<close> found
  nothing), \<^verbatim>\<open>forEach\<close> and \<^verbatim>\<open>get({filter})\<close> run in insertion order.
\<close>

fun ds_get :: "('a \<Rightarrow> string) \<Rightarrow> string \<Rightarrow> 'a list \<Rightarrow> 'a option" where
  "ds_get key i [] = None"
| "ds_get key i (x # xs) = (if key x = i then Some x else ds_get key i xs)"

fun ds_update :: "('a \<Rightarrow> string) \<Rightarrow> string \<Rightarrow> ('a \<Rightarrow> 'a) \<Rightarrow> 'a \<Rightarrow> 'a list \<Rightarrow> 'a list" where
  "ds_update key i f fresh [] = [fresh]"
| "ds_update key i f fresh (x # xs) =
     (if key x = i then f x # xs else x # ds_update key i f fresh xs)"

definition ds_add :: "'a \<Rightarrow> 'a list \<Rightarrow> 'a list" where
  "ds_add x xs = xs @ [x]"

section \<open>Node appearance\<close>

definition getNodeColor :: "raw_node \<Rightarrow> string" where
  "getNodeColor node =
     (let tier = (case n_tier node of None \<Rightarrow> -1 | Some t \<Rightarrow> t)
      in case TIER_COLORS tier of Some c \<Rightarrow> c | None \<Rightarrow> the (TIER_COLORS (-1)))"

definition getNodeSize :: "raw_node \<Rightarrow> rat" where
  "getNodeSize node =
     (if n_type node = Some ''CONCEPT'' then 18
      else let tier = (case n_tier node of None \<Rightarrow> 1 | Some t \<Rightarrow> t)
           in 12 + of_int (max 0 (4 - tier)) * (3 / 2))"

definition truncateLabel :: "string option \<Rightarrow> string" where
  "truncateLabel label =
     (case label of
        None \<Rightarrow> ''...''
      | Some l \<Rightarrow>
          if l = [] then ''...''
          else if length l \<le> 20 then l
          else take 20 l @ ''...'')"

text \<open>The object \<^verbatim>\<open>{}\<close> read as a node: every field is undefined.\<close>

definition empty_object :: raw_node where
  "empty_object = \<lparr>n_id = [], n_label = None, n_type = None, n_tier = None\<rparr>"

section \<open>Page state\<close>

text \<open>A network call the page has issued: the endpoint and the body's fields.\<close>

datatype request =
    SearchRequest string nat
  | TraverseRequest string string int
  | QueryRequest string int

text \<open>
  The module's global variables, followed by the parts of the page the handlers read and
  write: the toasts shown, the network calls issued, the items of the search result list,
  the answer area, the three input fields (\<open>max_depth\<close> is \<^verbatim>\<open>parseInt\<close> of its field,
  \<open>None\<close> for NaN), the values of the checked tier boxes, and the deadline of the
  debounce timer when one is pending. The renderer handle \<^verbatim>\<open>network\<close> only moves the
  view and is left out.
\<close>

record state =
  allNodes :: "raw_node list"
  allEdges :: "raw_edge list"
  nodesDataset :: "vis_node list option"
  edgesDataset :: "vis_edge list option"
  selectedNodeId :: "string option"
  highlightedNodes :: "string list"
  highlightedEdges :: "string list"
  toasts :: "(string \<times> string) list"
  requests :: "request list"
  search_results :: "raw_node list"
  answer_text :: string
  query_input :: string
  node_search :: string
  max_depth :: "int option"
  tier_checked :: "int list"
  timeout :: "nat option"

text \<open>A JavaScript \<^verbatim>\<open>Set\<close> of strings, in insertion order.\<close>

definition set_add :: "string \<Rightarrow> string list \<Rightarrow> string list" where
  "set_add x xs = (if x \<in> set xs then xs else xs @ [x])"

definition set_delete :: "string \<Rightarrow> string list \<Rightarrow> string list" where
  "set_delete x xs = removeAll x xs"

definition showToast :: "string \<Rightarrow> string \<Rightarrow> state \<Rightarrow> state" where
  "showToast message kind s = s\<lparr>toasts := toasts s @ [(message, kind)]\<rparr>"

text \<open>\<^verbatim>\<open>parseInt(document.getElementById('max-depth').value) || 3\<close>\<close>

definition maxDepth :: "state \<Rightarrow> int" where
  "maxDepth s = (case max_depth s of None \<Rightarrow> 3 | Some d \<Rightarrow> if d = 0 then 3 else d)"

subsection \<open>Exceptions\<close>

text \<open>
  A handler either runs to its end or throws; a throw keeps the writes made before it.
\<close>

datatype error = TypeError string

datatype outcome = Done state | Thrown error state

definition and_then :: "outcome \<Rightarrow> (state \<Rightarrow> outcome) \<Rightarrow> outcome" where
  "and_then r f = (case r of Done s \<Rightarrow> f s | Thrown e s \<Rightarrow> Thrown e s)"

fun forEach :: "('a \<Rightarrow> state \<Rightarrow> outcome) \<Rightarrow> 'a list \<Rightarrow> state \<Rightarrow> outcome" where
  "forEach f [] s = Done s"
| "forEach f (x # xs) s = and_then (f x s) (forEach f xs)"

definition state_of :: "outcome \<Rightarrow> state" where
  "state_of r = (case r of Done s \<Rightarrow> s | Thrown e s \<Rightarrow> s)"

text \<open>
  The error a method call on a dataset variable that is still null raises, in the wording
  of Chrome; \<open>method\<close> is the method the handler tried to read.
\<close>

definition NULL_DATASET :: "string \<Rightarrow> error" where
  "NULL_DATASET method =
     TypeError (''Cannot read properties of null (reading '' @ [CHR 0x27] @ method
                  @ [CHR 0x27] @ '')'')"

section \<open>Highlighting\<close>

text \<open>
  The fields an item has when \<^verbatim>\<open>update\<close> creates it: the id alone. Size, font, colour and
  width are placeholders here, since every update of the client that can create an item
  sets them.
\<close>

definition blank_node :: "string \<Rightarrow> vis_node" where
  "blank_node i =
     \<lparr>v_id = i, v_label = None, v_color = None, v_shape = None, v_size = 0,
      v_font = \<lparr>f_color = [], f_size = 0\<rparr>, v_tier = None, v_type = None,
      v_originalColor = None, v_data = None, v_hidden = None\<rparr>"

definition blank_edge :: "string \<Rightarrow> vis_edge" where
  "blank_edge i =
     \<lparr>ve_id = i, ve_from = None, ve_to = None, ve_arrows = None,
      ve_color = \<lparr>c_color = [], c_highlight = None, c_opacity = 0\<rparr>,
      ve_width = 0, ve_type = None\<rparr>"

definition update_node :: "string \<Rightarrow> (vis_node \<Rightarrow> vis_node) \<Rightarrow> vis_node list \<Rightarrow> vis_node list" where
  "update_node i f ds = ds_update v_id i f (f (blank_node i)) ds"

text \<open>\<^verbatim>\<open>edgesDataset?.update({id: i, ...})\<close>\<close>

definition update_edge :: "string \<Rightarrow> (vis_edge \<Rightarrow> vis_edge) \<Rightarrow> state \<Rightarrow> state" where
  "update_edge i f s =
     (case edgesDataset s of
        None \<Rightarrow> s
      | Some es \<Rightarrow> s\<lparr>edgesDataset := Some (ds_update ve_id i f (f (blank_edge i)) es)\<rparr>)"

definition highlight_fields :: "vis_node \<Rightarrow> vis_node" where
  "highlight_fields n =
     n\<lparr>v_color := Some HIGHLIGHT_COLOR, v_size := 25,
       v_font := \<lparr>f_color = ''#000'', f_size = 14\<rparr>\<rparr>"

definition restore_fields :: "vis_node \<Rightarrow> vis_node \<Rightarrow> vis_node" where
  "restore_fields node n =
     n\<lparr>v_color := v_originalColor node,
       v_size := getNodeSize (case v_data node of None \<Rightarrow> empty_object | Some d \<Rightarrow> d),
       v_font := \<lparr>f_color = ''#e4e6eb'', f_size = 10\<rparr>\<rparr>"

definition highlightNode :: "string \<Rightarrow> bool \<Rightarrow> state \<Rightarrow> outcome" where
  "highlightNode nodeId isHighlighted s =
     (if isHighlighted then
        (let s1 = s\<lparr>highlightedNodes := set_add nodeId (highlightedNodes s)\<rparr>
         in case nodesDataset s1 of
              None \<Rightarrow> Thrown (NULL_DATASET ''update'') s1
            | Some ds \<Rightarrow> Done (s1\<lparr>nodesDataset := Some (update_node nodeId highlight_fields ds)\<rparr>))
      else
        (let s1 = s\<lparr>highlightedNodes := set_delete nodeId (highlightedNodes s)\<rparr>
         in case nodesDataset s1 of
              None \<Rightarrow> Thrown (NULL_DATASET ''get'') s1
            | Some ds \<Rightarrow>
                (case ds_get v_id nodeId ds of
                   None \<Rightarrow> Done s1
                 | Some node \<Rightarrow>
                     Done (s1\<lparr>nodesDataset :=
                                  Some (update_node nodeId (restore_fields node) ds)\<rparr>))))"

definition reset_edge :: "vis_edge \<Rightarrow> vis_edge" where
  "reset_edge e =
     e\<lparr>ve_color := \<lparr>c_color = ''#30363d'', c_highlight = None, c_opacity = 3 / 5\<rparr>,
       ve_width := 1\<rparr>"

definition highlight_edge :: "vis_edge \<Rightarrow> vis_edge" where
  "highlight_edge e =
     e\<lparr>ve_color := \<lparr>c_color = HIGHLIGHT_COLOR, c_highlight = None, c_opacity = 1\<rparr>,
       ve_width := 3\<rparr>"

definition clearHighlights :: "state \<Rightarrow> outcome" where
  "clearHighlights s =
     and_then (forEach (\<lambda>nodeId. highlightNode nodeId False) (highlightedNodes s) s)
       (\<lambda>s1. let s2 = s1\<lparr>highlightedNodes := []\<rparr>;
                 s3 = fold (\<lambda>edgeId. update_edge edgeId reset_edge) (highlightedEdges s2) s2
             in Done (s3\<lparr>highlightedEdges := []\<rparr>))"

definition addNodeToGraph :: "raw_node \<Rightarrow> bool \<Rightarrow> state \<Rightarrow> state" where
  "addNodeToGraph nodeData highlight s =
     (case nodesDataset s of
        None \<Rightarrow> s
      | Some ds \<Rightarrow>
          if ds_get v_id (n_id nodeData) ds \<noteq> None then s
          else
            (let newNode =
                   \<lparr>v_id = n_id nodeData,
                    v_label = Some (truncateLabel (js_or (n_label nodeData) (Some (n_id nodeData)))),
                    v_color = Some (if highlight then HIGHLIGHT_COLOR else getNodeColor nodeData),
                    v_shape = js_or (NODE_SHAPES (n_type nodeData)) (Some ''dot''),
                    v_size = (if highlight then 25 else getNodeSize nodeData),
                    v_font = \<lparr>f_color = (if highlight then ''#000'' else ''#e4e6eb''),
                              f_size = (if highlight then 14 else 10)\<rparr>,
                    v_tier = n_tier nodeData,
                    v_type = n_type nodeData,
                    v_originalColor = Some (getNodeColor nodeData),
                    v_data = Some nodeData,
                    v_hidden = None\<rparr>;
                 s1 = s\<lparr>nodesDataset := Some (ds_add newNode ds)\<rparr>
             in if highlight
                then s1\<lparr>highlightedNodes := set_add (n_id nodeData) (highlightedNodes s1)\<rparr>
                else s1))"

section \<open>Applying a query result\<close>

text \<open>
  The parts of a \<^verbatim>\<open>POST /api/query\<close> response the client reads. An entry of a node list
  may be null (\<open>None\<close>): the client skips it.
\<close>

record context_debug =
  target_node :: "raw_node option"
  upstream_nodes :: "raw_node option list option"
  downstream_nodes :: "raw_node option list option"

record source_item =
  s_type :: "string option"
  s_value :: "string option"

record query_result =
  q_answer :: "string option"
  q_context_debug :: "context_debug option"
  q_sources :: "source_item list option"

definition nodesToHighlight :: "query_result \<Rightarrow> raw_node option list" where
  "nodesToHighlight result =
     (case q_context_debug result of
        None \<Rightarrow> []
      | Some debug \<Rightarrow>
          (case target_node debug of None \<Rightarrow> [] | Some t \<Rightarrow> [Some t])
          @ (case upstream_nodes debug of None \<Rightarrow> [] | Some us \<Rightarrow> us)
          @ (case downstream_nodes debug of None \<Rightarrow> [] | Some ds \<Rightarrow> ds))"

text \<open>\<^verbatim>\<open>nodesDataset?.get(id)\<close>\<close>

definition existingNode :: "string \<Rightarrow> state \<Rightarrow> vis_node option" where
  "existingNode i s = (case nodesDataset s of None \<Rightarrow> None | Some ds \<Rightarrow> ds_get v_id i ds)"

text \<open>The body of the loop over \<^verbatim>\<open>nodesToHighlight\<close>.\<close>

definition highlight_or_add :: "raw_node option \<Rightarrow> state \<Rightarrow> outcome" where
  "highlight_or_add node s =
     (case node of
        None \<Rightarrow> Done s
      | Some n \<Rightarrow>
          if n_id n = [] then Done s
          else (case existingNode (n_id n) s of
                  Some x \<Rightarrow> highlightNode (n_id n) True s
                | None \<Rightarrow> Done (addNodeToGraph n True s)))"

text \<open>\<^verbatim>\<open>new Set(nodesToHighlight.map(n => n?.id).filter(Boolean))\<close>\<close>

definition truthy_id :: "raw_node option \<Rightarrow> string option" where
  "truthy_id node =
     (case node of None \<Rightarrow> None | Some n \<Rightarrow> if n_id n = [] then None else Some (n_id n))"

definition highlightedIds :: "raw_node option list \<Rightarrow> string set" where
  "highlightedIds ns = set (List.map_filter truthy_id ns)"

definition has_id :: "string set \<Rightarrow> string option \<Rightarrow> bool" where
  "has_id ids v = (case v of None \<Rightarrow> False | Some i \<Rightarrow> i \<in> ids)"

text \<open>The body of the loop over the edges of the dataset.\<close>

definition highlight_between :: "string set \<Rightarrow> vis_edge \<Rightarrow> state \<Rightarrow> state" where
  "highlight_between ids edge s =
     (if has_id ids (ve_from edge) \<and> has_id ids (ve_to edge)
      then (update_edge (ve_id edge) highlight_edge s)
             \<lparr>highlightedEdges := set_add (ve_id edge) (highlightedEdges s)\<rparr>
      else s)"

text \<open>\<^verbatim>\<open>result.sources.find(s => s.type === 'path')\<close>, when it has a value.\<close>

definition pathLabels :: "query_result \<Rightarrow> string list" where
  "pathLabels result =
     (case q_sources result of
        None \<Rightarrow> []
      | Some srcs \<Rightarrow>
          (case find (\<lambda>x. s_type x = Some ''path'') srcs of
             None \<Rightarrow> []
           | Some pathSource \<Rightarrow>
               (case s_value pathSource of
                  None \<Rightarrow> []
                | Some v \<Rightarrow> if v = [] then [] else split ARROW_SEP v)))"

definition label_matches :: "string \<Rightarrow> vis_node \<Rightarrow> bool" where
  "label_matches label node =
     (case v_label node of None \<Rightarrow> False | Some l \<Rightarrow> toLowerCase l = toLowerCase label)"

definition highlight_label :: "string \<Rightarrow> state \<Rightarrow> outcome" where
  "highlight_label label s =
     (let nodes = (case nodesDataset s of
                     None \<Rightarrow> []
                   | Some ds \<Rightarrow> filter (label_matches label) ds)
      in forEach (\<lambda>node. highlightNode (v_id node) True) nodes s)"

definition highlightQueryPath :: "query_result \<Rightarrow> state \<Rightarrow> outcome" where
  "highlightQueryPath result s =
     and_then (clearHighlights s) (\<lambda>s1.
     and_then (forEach highlight_or_add (nodesToHighlight result) s1) (\<lambda>s2.
       let ids = highlightedIds (nodesToHighlight result);
           s3 = (case edgesDataset s2 of
                   None \<Rightarrow> s2
                 | Some es \<Rightarrow> fold (highlight_between ids) es s2)
       in forEach highlight_label (pathLabels result) s3))"

section \<open>Building the datasets\<close>

definition vis_node_of :: "raw_node \<Rightarrow> vis_node" where
  "vis_node_of node =
     \<lparr>v_id = n_id node,
      v_label = Some (truncateLabel (js_or (n_label node) (Some (n_id node)))),
      v_color = Some (getNodeColor node),
      v_shape = js_or (NODE_SHAPES (n_type node)) (Some ''dot''),
      v_size = getNodeSize node,
      v_font = \<lparr>f_color = ''#e4e6eb'', f_size = 10\<rparr>,
      v_tier = n_tier node,
      v_type = n_type node,
      v_originalColor = Some (getNodeColor node),
      v_data = Some node,
      v_hidden = None\<rparr>"

text \<open>The identifier \<^verbatim>\<open>`edge-${idx}`\<close> of the edge at position \<open>idx\<close> of the export.\<close>

definition bulk_edge_id :: "nat \<Rightarrow> string" where
  "bulk_edge_id idx = ''edge-'' @ string_of_nat idx"

definition vis_edge_of :: "nat \<Rightarrow> raw_edge \<Rightarrow> vis_edge" where
  "vis_edge_of idx edge =
     \<lparr>ve_id = bulk_edge_id idx,
      ve_from = js_or (e_source edge) (e_from edge),
      ve_to = js_or (e_target edge) (e_to edge),
      ve_arrows = Some ''to'',
      ve_color = \<lparr>c_color = ''#30363d'', c_highlight = Some HIGHLIGHT_COLOR, c_opacity = 3 / 5\<rparr>,
      ve_width = 1,
      ve_type = e_type edge\<rparr>"

text \<open>The first id that \<^verbatim>\<open>new vis.DataSet(items)\<close> finds already present, if any.\<close>

fun first_duplicate :: "string list \<Rightarrow> string list \<Rightarrow> string option" where
  "first_duplicate seen [] = None"
| "first_duplicate seen (x # xs) =
     (if x \<in> set seen then Some x else first_duplicate (x # seen) xs)"

text \<open>
  \<^verbatim>\<open>initializeNetwork\<close>, for a page whose canvas has a size and whose rendering library
  has loaded. The dataset constructor throws on a repeated id; the handler catches that
  and leaves the datasets as they were.
\<close>

definition initializeNetwork :: "state \<Rightarrow> state" where
  "initializeNetwork s =
     (if allNodes s = [] then showToast ''No graph nodes available'' ''warning'' s
      else
        (let nodes = map vis_node_of (allNodes s);
             edges = map (\<lambda>(idx, edge). vis_edge_of idx edge)
                         (zip [0 ..< length (allEdges s)] (allEdges s))
         in case first_duplicate [] (map v_id nodes) of
              Some d \<Rightarrow>
                showToast (''Failed to initialize graph: Cannot add item: item with id ''
                             @ d @ '' already exists'') ''error'' s
            | None \<Rightarrow> s\<lparr>nodesDataset := Some nodes, edgesDataset := Some edges\<rparr>))"

definition processGraphData :: "raw_node list \<Rightarrow> raw_edge list \<Rightarrow> state \<Rightarrow> state" where
  "processGraphData nodes edges s = initializeNetwork (s\<lparr>allNodes := nodes, allEdges := edges\<rparr>)"

definition selectNode :: "string \<Rightarrow> state \<Rightarrow> state" where
  "selectNode nodeId s = s\<lparr>selectedNodeId := Some nodeId\<rparr>"

definition clearNodeSelection :: "state \<Rightarrow> state" where
  "clearNodeSelection s = s\<lparr>selectedNodeId := None\<rparr>"

section \<open>Tier filter\<close>

definition tier_visible :: "int list \<Rightarrow> vis_node \<Rightarrow> bool" where
  "tier_visible enabledTiers node =
     ((case v_tier node of None \<Rightarrow> -1 | Some t \<Rightarrow> t) \<in> set enabledTiers)"

definition set_hidden :: "bool \<Rightarrow> vis_node \<Rightarrow> vis_node" where
  "set_hidden h n = n\<lparr>v_hidden := Some h\<rparr>"

definition filterGraph :: "state \<Rightarrow> state" where
  "filterGraph s =
     (let enabledTiers = tier_checked s
      in case nodesDataset s of
           None \<Rightarrow> s
         | Some ds \<Rightarrow>
             s\<lparr>nodesDataset :=
                 Some (fold (\<lambda>node. update_node (v_id node)
                                        (set_hidden (\<not> tier_visible enabledTiers node)))
                            ds ds)\<rparr>)"

section \<open>Network calls\<close>

text \<open>
  What an awaited \<^verbatim>\<open>fetch\<close> and the reading of its JSON body give: a rejection with an
  error message (no connection, or a body that is not JSON), a response whose status is
  not a success, or a success with its parsed body.
\<close>

datatype error_body = NotJson string | ErrorBody "string option"

datatype 'a fetch_result = NetworkFailure string | HttpError error_body | HttpOk 'a

section \<open>Traversal display\<close>

record traversal_result =
  t_nodes :: "raw_node list option"
  t_edges :: "raw_edge list option"
  t_count :: "nat option"

definition fetchTraversal :: "traversal_result fetch_result \<Rightarrow> traversal_result option" where
  "fetchTraversal response = (case response of HttpOk r \<Rightarrow> Some r | _ \<Rightarrow> None)"

text \<open>The identifier \<^verbatim>\<open>`dynamic-edge-${edge.source}-${edge.target}`\<close>.\<close>

definition dynamic_edge_id :: "raw_edge \<Rightarrow> string" where
  "dynamic_edge_id edge =
     ''dynamic-edge-'' @ js_show (e_source edge) @ ''-'' @ js_show (e_target edge)"

definition existingEdge :: "string \<Rightarrow> state \<Rightarrow> vis_edge option" where
  "existingEdge i s = (case edgesDataset s of None \<Rightarrow> None | Some es \<Rightarrow> ds_get ve_id i es)"

text \<open>The body of the loop over \<^verbatim>\<open>result.nodes\<close>.\<close>

definition traversal_node :: "raw_node \<Rightarrow> state \<Rightarrow> outcome" where
  "traversal_node node s =
     (case existingNode (n_id node) s of
        Some x \<Rightarrow> highlightNode (n_id node) True s
      | None \<Rightarrow> Done (addNodeToGraph node True s))"

text \<open>The body of the loop over \<^verbatim>\<open>result.edges\<close>.\<close>

definition traversal_edge :: "raw_edge \<Rightarrow> state \<Rightarrow> state" where
  "traversal_edge edge s =
     (let edgeId = dynamic_edge_id edge;
          s1 = (case existingEdge edgeId s of
                  None \<Rightarrow>
                    (case edgesDataset s of
                       None \<Rightarrow> s
                     | Some es \<Rightarrow>
                         s\<lparr>edgesDataset := Some (ds_add
                             \<lparr>ve_id = edgeId,
                              ve_from = e_source edge,
                              ve_to = e_target edge,
                              ve_arrows = Some ''to'',
                              ve_color = \<lparr>c_color = HIGHLIGHT_COLOR, c_highlight = None,
                                          c_opacity = 1\<rparr>,
                              ve_width = 3,
                              ve_type = e_type edge\<rparr> es)\<rparr>)
                | Some x \<Rightarrow> update_edge edgeId highlight_edge s)
      in s1\<lparr>highlightedEdges := set_add edgeId (highlightedEdges s1)\<rparr>)"

text \<open>
  \<^verbatim>\<open>showTraversal(direction)\<close>; \<open>response\<close> is what the traversal call gives if it is
  made. The handler reads \<^verbatim>\<open>selectedNodeId\<close> in its guard and in the request, and reads
  it again after the \<^verbatim>\<open>await\<close> when it highlights the selected node. The function is
  modelled as one step, with no other handler running while the call is pending, so the
  two reads give the same node. A selection changed or cleared while the call is pending
  is outside this model: what the handler then passes to \<^verbatim>\<open>highlightNode\<close> is the new
  selection or null, and what the dataset does with a null id is the library's matter.
\<close>

definition showTraversal :: "string \<Rightarrow> traversal_result fetch_result \<Rightarrow> state \<Rightarrow> outcome" where
  "showTraversal direction response s =
     (case selectedNodeId s of
        None \<Rightarrow> Done (showToast ''Please select a node first'' ''warning'' s)
      | Some sel \<Rightarrow>
          if sel = [] then Done (showToast ''Please select a node first'' ''warning'' s)
          else
            (let s0 = s\<lparr>requests := requests s @ [TraverseRequest sel direction (maxDepth s)]\<rparr>
             in case fetchTraversal response of
                  None \<Rightarrow> Done s0
                | Some result \<Rightarrow>
                    (case t_nodes result of
                       None \<Rightarrow> Done s0
                     | Some nodes \<Rightarrow>
                         and_then (clearHighlights s0) (\<lambda>s1.
                         and_then (highlightNode sel True s1) (\<lambda>s2.
                         and_then (forEach traversal_node nodes s2) (\<lambda>s3.
                           let s4 = (case t_edges result of
                                       None \<Rightarrow> s3
                                     | Some edges \<Rightarrow> fold traversal_edge edges s3)
                           in Done (showToast
                                (''Found '' @ (case t_count result of
                                                 None \<Rightarrow> ''undefined''
                                               | Some c \<Rightarrow> string_of_nat c)
                                   @ '' '' @ direction @ '' nodes'') ''success'' s4)))))))"

section \<open>Queries\<close>

text \<open>
  \<^verbatim>\<open>displayQueryResult\<close> writes the answer and the debug panels; of these only the answer
  area is kept, as the text handed to the markdown renderer.
\<close>

definition displayQueryResult :: "query_result \<Rightarrow> state \<Rightarrow> state" where
  "displayQueryResult result s =
     s\<lparr>answer_text := (case js_or (q_answer result) (Some ''No answer generated'') of
                           None \<Rightarrow> [] | Some a \<Rightarrow> a)\<rparr>"

text \<open>The \<^verbatim>\<open>catch\<close> block of \<^verbatim>\<open>executeQuery\<close> (the answer area without its markup).\<close>

definition query_failed :: "string \<Rightarrow> state \<Rightarrow> state" where
  "query_failed message s =
     showToast (''Query failed: '' @ message) ''error''
       (s\<lparr>answer_text := ''Error: '' @ message\<rparr>)"

text \<open>\<^verbatim>\<open>executeQuery\<close> up to its \<^verbatim>\<open>await\<close>: the new state, and whether a call was made.\<close>

definition executeQuery_request :: "state \<Rightarrow> state \<times> bool" where
  "executeQuery_request s =
     (let query = trim (query_input s)
      in if query = [] then (showToast ''Please enter a query'' ''warning'' s, False)
         else (s\<lparr>answer_text := ''Processing query...'',
                 requests := requests s @ [QueryRequest query (maxDepth s)]\<rparr>, True))"

text \<open>\<^verbatim>\<open>executeQuery\<close> from the point where the call has completed.\<close>

definition executeQuery_response :: "query_result fetch_result \<Rightarrow> state \<Rightarrow> state" where
  "executeQuery_response response s =
     (case response of
        NetworkFailure message \<Rightarrow> query_failed message s
      | HttpError body \<Rightarrow>
          (case body of
             NotJson message \<Rightarrow> query_failed message s
           | ErrorBody detail \<Rightarrow>
               query_failed (js_show (js_or detail (Some ''Query failed''))) s)
      | HttpOk result \<Rightarrow>
          (case highlightQueryPath result (displayQueryResult result s) of
             Done s1 \<Rightarrow> showToast ''Query completed!'' ''success'' s1
           | Thrown (TypeError message) s1 \<Rightarrow> query_failed message s1))"

definition executeQuery :: "query_result fetch_result \<Rightarrow> state \<Rightarrow> state" where
  "executeQuery response s =
     (case executeQuery_request s of
        (s1, True) \<Rightarrow> executeQuery_response response s1
      | (s1, False) \<Rightarrow> s1)"

section \<open>Search\<close>

definition displaySearchResults :: "raw_node list \<Rightarrow> state \<Rightarrow> state" where
  "displaySearchResults results s = s\<lparr>search_results := results\<rparr>"

text \<open>
  \<^verbatim>\<open>searchNodes\<close> up to its \<^verbatim>\<open>await\<close>: the new state, and the query of the call it made,
  if it made one.
\<close>

definition searchNodes_request :: "state \<Rightarrow> state \<times> string option" where
  "searchNodes_request s =
     (let query = toLowerCase (trim (node_search s))
      in if length query < 2 then (s\<lparr>search_results := []\<rparr>, None)
         else (s\<lparr>requests := requests s @ [SearchRequest query 10]\<rparr>, Some query))"

text \<open>A dataset item shown in place of its missing \<^verbatim>\<open>data\<close> (\<^verbatim>\<open>n.data || n\<close>).\<close>

definition item_or_data :: "vis_node \<Rightarrow> raw_node" where
  "item_or_data n =
     (case v_data n of
        Some d \<Rightarrow> d
      | None \<Rightarrow> \<lparr>n_id = v_id n, n_label = v_label n, n_type = v_type n, n_tier = v_tier n\<rparr>)"

definition local_match :: "string \<Rightarrow> vis_node \<Rightarrow> bool" where
  "local_match query node =
     ((case v_label node of None \<Rightarrow> False | Some l \<Rightarrow> js_includes (toLowerCase l) query)
      \<or> js_includes (toLowerCase (v_id node)) query)"

text \<open>
  \<^verbatim>\<open>searchNodes\<close> from the point where the call for \<open>query\<close> has completed; the body of a
  success is \<^verbatim>\<open>data.results\<close>.
\<close>

definition searchNodes_response ::
    "string \<Rightarrow> raw_node list option fetch_result \<Rightarrow> state \<Rightarrow> state" where
  "searchNodes_response query response s =
     (case response of
        HttpOk results \<Rightarrow>
          displaySearchResults (case results of None \<Rightarrow> [] | Some rs \<Rightarrow> rs) s
      | _ \<Rightarrow>
          (let localResults = (case nodesDataset s of
                                 None \<Rightarrow> []
                               | Some ds \<Rightarrow> filter (local_match query) ds)
           in displaySearchResults (map item_or_data (take 10 localResults)) s))"

subsection \<open>Debounce\<close>

text \<open>
  \<^verbatim>\<open>debounce(searchNodes, wait)\<close> listens to the search field. Times are in milliseconds.
  \<open>executedFunction\<close> runs at each input event: it cancels the pending timer and sets a
  new one. \<open>later\<close> is the timer's callback.
\<close>

definition executedFunction :: "nat \<Rightarrow> nat \<Rightarrow> state \<Rightarrow> state" where
  "executedFunction wait now s = s\<lparr>timeout := Some (now + wait)\<rparr>"

definition later :: "state \<Rightarrow> state" where
  "later s = fst (searchNodes_request (s\<lparr>timeout := None\<rparr>))"

text \<open>The event loop runs a timer whose deadline has passed before the next input event.\<close>

definition run_due :: "nat \<Rightarrow> state \<Rightarrow> state" where
  "run_due now s =
     (case timeout s of None \<Rightarrow> s | Some deadline \<Rightarrow> if deadline \<le> now then later s else s)"

text \<open>Input events \<open>(time, text of the field)\<close>, in the order they happen.\<close>

fun keystrokes :: "nat \<Rightarrow> (nat \<times> string) list \<Rightarrow> state \<Rightarrow> state" where
  "keystrokes wait [] s = s"
| "keystrokes wait ((now, text) # ks) s =
     keystrokes wait ks (executedFunction wait now ((run_due now s)\<lparr>node_search := text\<rparr>))"

text \<open>No further input: the pending timer, if any, fires.\<close>

definition settle :: "state \<Rightarrow> state" where
  "settle s = (case timeout s of None \<Rightarrow> s | Some deadline \<Rightarrow> later s)"

section \<open>The page when the script has loaded\<close>

text \<open>The module's variables as the script sets them when it loads, on an empty page.\<close>

definition initial_state :: state where
  "initial_state =
     \<lparr>allNodes = [], allEdges = [], nodesDataset = None, edgesDataset = None,
      selectedNodeId = None, highlightedNodes = [], highlightedEdges = [],
      toasts = [], requests = [], search_results = [], answer_text = [],
      query_input = [], node_search = [], max_depth = None, tier_checked = [],
      timeout = None\<rparr>"

section \<open>Loading the export\<close>

record graph_data =
  g_nodes :: "raw_node list option"
  g_edges :: "raw_edge list option"

text \<open>
  \<^verbatim>\<open>loadGraphData\<close> from the point where the export call has completed: a success is
  processed, anything else is caught, reported, and followed by an empty load.
\<close>

definition loadGraphData :: "graph_data fetch_result \<Rightarrow> state \<Rightarrow> state" where
  "loadGraphData response s =
     (case response of
        HttpOk graphData \<Rightarrow>
          processGraphData (case g_nodes graphData of None \<Rightarrow> [] | Some ns \<Rightarrow> ns)
                           (case g_edges graphData of None \<Rightarrow> [] | Some es \<Rightarrow> es) s
      | _ \<Rightarrow>
          initializeNetwork
            ((showToast ''Failed to load graph. Is the API running?'' ''error'' s)
               \<lparr>allNodes := [], allEdges := []\<rparr>))"

section \<open>Focus and reset\<close>

text \<open>
  \<^verbatim>\<open>searchAndFocusNode\<close>: the node with that id or, failing that, the first node with that
  label is selected; moving the view is the renderer's part.
\<close>

definition searchAndFocusNode :: "string \<Rightarrow> state \<Rightarrow> state" where
  "searchAndFocusNode identifier s =
     (let node = (case existingNode identifier s of
                    Some n \<Rightarrow> Some n
                  | None \<Rightarrow>
                      (case nodesDataset s of
                         None \<Rightarrow> None
                       | Some ds \<Rightarrow>
                           (case filter (label_matches identifier) ds of
                              [] \<Rightarrow> None
                            | n # rest \<Rightarrow> Some n)))
      in case node of
           Some n \<Rightarrow> selectNode (v_id n) s
         | None \<Rightarrow>
             showToast (''Node '' @ [CHR 0x22] @ identifier @ [CHR 0x22]
                          @ '' not found in current view'') ''warning'' s)"

definition resetView :: "state \<Rightarrow> outcome" where
  "resetView s = and_then (clearHighlights s) (\<lambda>s1. Done (clearNodeSelection s1))"

section \<open>Sessions\<close>

text \<open>
  What can happen on the page, one handler run each. The renderer reports a click on one
  of the nodes of its dataset (\<^verbatim>\<open>selectNode\<close>) or on the empty canvas (\<^verbatim>\<open>deselectNode\<close>).
  An entry of the answer panels is clicked, or an item of the search result list, which
  also empties the list and the search field. A query is submitted with the text of the
  query field; the call of a query completes. A traversal button is clicked and its call
  completes: this is one event, so in a session the selection does not change while a
  traversal call is pending (see \<open>showTraversal\<close>). A key is typed in the search field
  at some time; the debounce timer fires; the call of a search completes. The checked
  tier boxes change. The highlights are cleared; the view is reset. A handler that throws
  leaves the writes it made. Events that only move the view or switch panels are left
  out, and so are the statistics loaded after the export; the functions exported for
  debugging on \<^verbatim>\<open>window.GraphRAG\<close> are not events of a session.
\<close>

datatype event =
    NodeClicked string
  | CanvasClicked
  | NodePicked string
  | SearchResultClicked string
  | QuerySubmitted string
  | QueryAnswered "query_result fetch_result"
  | TraversalShown string "traversal_result fetch_result"
  | KeyTyped nat string
  | TimerFired
  | SearchAnswered string "raw_node list option fetch_result"
  | TiersChanged "int list"
  | HighlightsCleared
  | ViewReset

definition handle :: "event \<Rightarrow> state \<Rightarrow> state" where
  "handle e s =
     (case e of
        NodeClicked nodeId \<Rightarrow>
          (case existingNode nodeId s of None \<Rightarrow> s | Some n \<Rightarrow> selectNode nodeId s)
      | CanvasClicked \<Rightarrow> clearNodeSelection s
      | NodePicked identifier \<Rightarrow> searchAndFocusNode identifier s
      | SearchResultClicked nodeId \<Rightarrow>
          (searchAndFocusNode nodeId s)\<lparr>search_results := [], node_search := []\<rparr>
      | QuerySubmitted v \<Rightarrow> fst (executeQuery_request (s\<lparr>query_input := v\<rparr>))
      | QueryAnswered response \<Rightarrow> executeQuery_response response s
      | TraversalShown direction response \<Rightarrow> state_of (showTraversal direction response s)
      | KeyTyped now v \<Rightarrow> keystrokes 300 [(now, v)] s
      | TimerFired \<Rightarrow> settle s
      | SearchAnswered query response \<Rightarrow> searchNodes_response query response s
      | TiersChanged tiers \<Rightarrow> filterGraph (s\<lparr>tier_checked := tiers\<rparr>)
      | HighlightsCleared \<Rightarrow> state_of (clearHighlights s)
      | ViewReset \<Rightarrow> state_of (resetView s))"

definition run :: "event list \<Rightarrow> state \<Rightarrow> state" where
  "run events s = fold handle events s"

text \<open>
  A session: the script loads, the events \<open>before\<close> happen while the export call is
  pending, the call completes, the events \<open>after\<close> follow.
\<close>

definition page :: "event list \<Rightarrow> graph_data fetch_result \<Rightarrow> event list \<Rightarrow> state" where
  "page before export after = run after (loadGraphData export (run before initial_state))"

section \<open>Example data\<close>

definition field_node :: "string \<Rightarrow> int \<Rightarrow> raw_node" where
  "field_node i t = \<lparr>n_id = i, n_label = None, n_type = Some ''FIELD'', n_tier = Some t\<rparr>"

definition concept_node :: "string \<Rightarrow> raw_node" where
  "concept_node i = \<lparr>n_id = i, n_label = None, n_type = Some ''CONCEPT'', n_tier = None\<rparr>"

definition edge_between :: "string \<Rightarrow> string \<Rightarrow> raw_edge" where
  "edge_between a b =
     \<lparr>e_source = Some a, e_target = Some b, e_from = None, e_to = None, e_type = None\<rparr>"

text \<open>
  The page after the export \<^verbatim>\<open>{nodes: [{id:"A",tier:1},{id:"B",tier:3}],
  edges: [{source:"A",target:"B"}]}\<close> has been loaded.
\<close>

definition loaded_AB :: state where
  "loaded_AB =
     processGraphData [field_node ''A'' 1, field_node ''B'' 3] [edge_between ''A'' ''B'']
       initial_state"

text \<open>
  The response \<^verbatim>\<open>{context_debug: {target_node: {id:"B",tier:3},
  upstream_nodes: [{id:"A",tier:1}]}}\<close>, and the page after it has been applied.
\<close>

definition query_AB :: query_result where
  "query_AB =
     \<lparr>q_answer = None,
      q_context_debug = Some \<lparr>target_node = Some (field_node ''B'' 3),
                               upstream_nodes = Some [Some (field_node ''A'' 1)],
                               downstream_nodes = None\<rparr>,
      q_sources = None\<rparr>"

definition highlighted_AB :: state where
  "highlighted_AB = state_of (highlightQueryPath query_AB loaded_AB)"

text \<open>
  A traversal response holding node B and the edge from A to B, and the page after node A
  has been selected and its downstream traversal displayed.
\<close>

definition traversal_AB :: "traversal_result fetch_result" where
  "traversal_AB =
     HttpOk \<lparr>t_nodes = Some [field_node ''B'' 3],
              t_edges = Some [edge_between ''A'' ''B''], t_count = Some 1\<rparr>"

definition traversed_AB :: state where
  "traversed_AB = state_of (showTraversal ''downstream'' traversal_AB (selectNode ''A'' loaded_AB))"

text \<open>The first export as the response of the export call, and an empty export.\<close>

definition export_AB :: "graph_data fetch_result" where
  "export_AB =
     HttpOk \<lparr>g_nodes = Some [field_node ''A'' 1, field_node ''B'' 3],
              g_edges = Some [edge_between ''A'' ''B'']\<rparr>"


text \<open>A query result and a traversal response that refer to a node C the export lacks.\<close>

definition query_C :: query_result where
  "query_C =
     \<lparr>q_answer = None,
      q_context_debug = Some \<lparr>target_node = Some (field_node ''C'' 2),
                               upstream_nodes = Some [Some (field_node ''A'' 1)],
                               downstream_nodes = None\<rparr>,
      q_sources = None\<rparr>"


text \<open>
  An export with a third node X, and the earlier query result with a path source
  \<^verbatim>\<open>a -> x\<close> added to it.
\<close>

definition loaded_ABX :: state where
  "loaded_ABX =
     processGraphData [field_node ''A'' 1, field_node ''B'' 3, field_node ''X'' 2]
       [edge_between ''A'' ''B''] initial_state"

definition query_AB_path :: query_result where
  "query_AB_path =
     query_AB\<lparr>q_sources := Some [\<lparr>s_type = Some ''path'',
                                       s_value = Some (''a'' @ ARROW_SEP @ ''x'')\<rparr>]\<rparr>"

section \<open>Notions used by the properties\<close>

text \<open>The graph data and the highlight state.\<close>

definition graph_and_highlight ::
    "state \<Rightarrow> raw_node list \<times> raw_edge list \<times> vis_node list option \<times> vis_edge list option
              \<times> string list \<times> string list" where
  "graph_and_highlight s =
     (allNodes s, allEdges s, nodesDataset s, edgesDataset s,
      highlightedNodes s, highlightedEdges s)"

text \<open>The message \<^verbatim>\<open>executeQuery\<close> throws for a response whose status is not a success.\<close>

definition failure_message :: "error_body \<Rightarrow> string" where
  "failure_message body =
     (case body of
        NotJson message \<Rightarrow> message
      | ErrorBody detail \<Rightarrow> js_show (js_or detail (Some ''Query failed'')))"

text \<open>Search responses \<open>(query, response)\<close> handled in the order they arrive.\<close>

fun arrivals :: "(string \<times> raw_node list option fetch_result) list \<Rightarrow> state \<Rightarrow> state" where
  "arrivals [] s = s"
| "arrivals ((query, response) # rest) s = arrivals rest (searchNodes_response query response s)"

text \<open>Input events in time order, each less than \<open>wait\<close> after the one before.\<close>

fun within_window :: "nat \<Rightarrow> (nat \<times> string) list \<Rightarrow> bool" where
  "within_window wait [] = True"
| "within_window wait [k] = True"
| "within_window wait ((t1, v1) # (t2, v2) # ks) =
     (t1 \<le> t2 \<and> t2 < t1 + wait \<and> within_window wait ((t2, v2) # ks))"

text \<open>The network calls \<^verbatim>\<open>searchNodes\<close> makes when the search field holds \<open>v\<close>.\<close>

definition search_call :: "string \<Rightarrow> request list" where
  "search_call v =
     (let query = toLowerCase (trim v)
      in if length query < 2 then [] else [SearchRequest query 10])"

text \<open>\<^verbatim>\<open>highlightNode(i, true)\<close> followed by \<^verbatim>\<open>highlightNode(i, false)\<close>.\<close>

definition highlight_then_unhighlight :: "string \<Rightarrow> state \<Rightarrow> outcome" where
  "highlight_then_unhighlight i s = and_then (highlightNode i True s) (highlightNode i False)"

text \<open>The size \<^verbatim>\<open>getNodeSize(node.data || {})\<close> that unhighlighting gives an item.\<close>

definition baseline_size :: "vis_node \<Rightarrow> rat" where
  "baseline_size n = getNodeSize (case v_data n of None \<Rightarrow> empty_object | Some d \<Rightarrow> d)"

text \<open>An item whose colour and size are the ones unhighlighting would give it.\<close>

definition at_baseline :: "vis_node \<Rightarrow> bool" where
  "at_baseline n = (v_color n = v_originalColor n \<and> v_size n = baseline_size n)"

text \<open>
  The fields of a dataset item that no highlight or filter update writes: the node's
  canonical data.
\<close>

definition canonical ::
    "vis_node \<Rightarrow> string \<times> string option \<times> string option \<times> int option \<times> string option
                 \<times> string option \<times> raw_node option" where
  "canonical n = (v_id n, v_label n, v_shape n, v_tier n, v_type n, v_originalColor n, v_data n)"

text \<open>
  The ids of the target, upstream and downstream nodes of a query result, as the
  specification lists them; null entries and empty ids do not count.
\<close>

definition result_node_ids :: "query_result \<Rightarrow> string list" where
  "result_node_ids result =
     (case q_context_debug result of
        None \<Rightarrow> []
      | Some debug \<Rightarrow>
          filter (\<lambda>i. i \<noteq> [])
            (map n_id
               ((case target_node debug of None \<Rightarrow> [] | Some t \<Rightarrow> [t])
                @ concat (map (\<lambda>x. case x of None \<Rightarrow> [] | Some n \<Rightarrow> [n])
                            (case upstream_nodes debug of None \<Rightarrow> [] | Some us \<Rightarrow> us))
                @ concat (map (\<lambda>x. case x of None \<Rightarrow> [] | Some n \<Rightarrow> [n])
                            (case downstream_nodes debug of None \<Rightarrow> [] | Some ds \<Rightarrow> ds)))))"



text \<open>The items of the node dataset, none when there is no dataset.\<close>

definition loaded_nodes :: "state \<Rightarrow> vis_node list" where
  "loaded_nodes s = (case nodesDataset s of None \<Rightarrow> [] | Some ds \<Rightarrow> ds)"

definition loaded_edges :: "state \<Rightarrow> vis_edge list" where
  "loaded_edges s = (case edgesDataset s of None \<Rightarrow> [] | Some es \<Rightarrow> es)"


text \<open>The look of a highlighted node, of a highlighted edge and of an edge at rest.\<close>

definition looks_highlighted :: "vis_node \<Rightarrow> bool" where
  "looks_highlighted n =
     (v_color n = Some HIGHLIGHT_COLOR \<and> v_size n = 25
      \<and> v_font n = \<lparr>f_color = ''#000'', f_size = 14\<rparr>)"

definition edge_looks_highlighted :: "vis_edge \<Rightarrow> bool" where
  "edge_looks_highlighted e =
     (ve_color e = \<lparr>c_color = HIGHLIGHT_COLOR, c_highlight = None, c_opacity = 1\<rparr>
      \<and> ve_width e = 3)"

text \<open>A node item with its colour, size and font set back, and the same for an edge.\<close>

definition unhighlighted :: "vis_node \<Rightarrow> vis_node" where
  "unhighlighted n =
     n\<lparr>v_color := v_originalColor n, v_size := baseline_size n,
       v_font := \<lparr>f_color = ''#e4e6eb'', f_size = 10\<rparr>\<rparr>"

definition edge_at_rest :: "vis_edge \<Rightarrow> vis_edge" where
  "edge_at_rest e =
     e\<lparr>ve_color := \<lparr>c_color = ''#30363d'', c_highlight = None, c_opacity = 3 / 5\<rparr>,
       ve_width := 1\<rparr>"

text \<open>
  \<open>grows s s'\<close>: both states have a node dataset, the canonical data of the items of \<open>s\<close>
  is unchanged and in place in \<open>s'\<close>, which may hold further items, and ids stay unique.
\<close>

definition grows :: "state \<Rightarrow> state \<Rightarrow> bool" where
  "grows s s' =
     (case nodesDataset s of
        None \<Rightarrow> False
      | Some ds \<Rightarrow>
          (case nodesDataset s' of
             None \<Rightarrow> False
           | Some ds' \<Rightarrow>
               prefix (map canonical ds) (map canonical ds')
               \<and> (distinct (map v_id ds) \<longrightarrow> distinct (map v_id ds'))))"

text \<open>The handler ran to its end and the dataset grew.\<close>

definition done_grows :: "state \<Rightarrow> outcome \<Rightarrow> bool" where
  "done_grows s r = (case r of Done s' \<Rightarrow> grows s s' | Thrown e s' \<Rightarrow> False)"

text \<open>The node dataset holds an item with id \<open>i\<close>.\<close>

definition present :: "string \<Rightarrow> state \<Rightarrow> bool" where
  "present i s = (case nodesDataset s of None \<Rightarrow> False | Some ds \<Rightarrow> i \<in> set (map v_id ds))"

text \<open>What identifies a visual edge: its id and its two ends.\<close>

definition ekey :: "vis_edge \<Rightarrow> string \<times> string option \<times> string option" where
  "ekey e = (ve_id e, ve_from e, ve_to e)"

text \<open>
  The ids of the dataset items whose label equals a path label, case-insensitively, label
  by label.
\<close>

definition path_matches :: "string list \<Rightarrow> vis_node list \<Rightarrow> string list" where
  "path_matches labels ds = concat (map (\<lambda>l. map v_id (filter (label_matches l) ds)) labels)"

text \<open>The ids of the edges of the dataset whose two ends are both among \<open>ids\<close>.\<close>

definition edges_between :: "string set \<Rightarrow> vis_edge list \<Rightarrow> string list" where
  "edges_between ids es =
     map ve_id (filter (\<lambda>e. has_id ids (ve_from e) \<and> has_id ids (ve_to e)) es)"

text \<open>A step that highlights the ids \<open>H\<close>, inserting the ones the dataset lacks.\<close>

definition add_step :: "state \<Rightarrow> state \<Rightarrow> string set \<Rightarrow> bool" where
  "add_step s s' H =
     (case nodesDataset s of
        None \<Rightarrow> False
      | Some ds \<Rightarrow>
          (case nodesDataset s' of
             None \<Rightarrow> False
           | Some ds' \<Rightarrow>
               set (highlightedNodes s') = set (highlightedNodes s) \<union> H
               \<and> v_id ` set ds \<subseteq> v_id ` set ds'
               \<and> H \<subseteq> v_id ` set ds'
               \<and> (H \<subseteq> v_id ` set ds \<longrightarrow> map canonical ds' = map canonical ds)
               \<and> edgesDataset s' = edgesDataset s
               \<and> highlightedEdges s' = highlightedEdges s))"

text \<open>The handler ran to its end and highlighted the ids \<open>H\<close>.\<close>

definition done_add :: "state \<Rightarrow> outcome \<Rightarrow> string set \<Rightarrow> bool" where
  "done_add s r H = (case r of Done s' \<Rightarrow> add_step s s' H | Thrown e s' \<Rightarrow> False)"

text \<open>
  A step that only writes colours, sizes and fonts of nodes: canonical data, edges and
  highlighted edges stay.
\<close>

definition repaint :: "state \<Rightarrow> state \<Rightarrow> bool" where
  "repaint s s' =
     ((case nodesDataset s of
         None \<Rightarrow> False
       | Some ds \<Rightarrow>
           (case nodesDataset s' of
              None \<Rightarrow> False
            | Some ds' \<Rightarrow> map canonical ds' = map canonical ds))
      \<and> edgesDataset s' = edgesDataset s
      \<and> highlightedEdges s' = highlightedEdges s)"

text \<open>The ids and the identifying data of the edges of the dataset.\<close>

definition edge_ids :: "state \<Rightarrow> string set" where
  "edge_ids s = (case edgesDataset s of None \<Rightarrow> {} | Some es \<Rightarrow> ve_id ` set es)"

definition edge_keys :: "state \<Rightarrow> (string \<times> string option \<times> string option) list option" where
  "edge_keys s = map_option (map ekey) (edgesDataset s)"

text \<open>
  A step on the nodes: every id is as before, in the dataset and in the highlight set, or
  is highlighted and looks it. Edges stay.
\<close>

definition node_step :: "state \<Rightarrow> state \<Rightarrow> bool" where
  "node_step s s' =
     (edgesDataset s' = edgesDataset s \<and> highlightedEdges s' = highlightedEdges s
      \<and> (\<forall>j. (existingNode j s' = existingNode j s
                 \<and> (j \<in> set (highlightedNodes s') \<longleftrightarrow> j \<in> set (highlightedNodes s)))
               \<or> (j \<in> set (highlightedNodes s')
                   \<and> (\<exists>n. existingNode j s' = Some n \<and> looks_highlighted n))))"

text \<open>The same for a step on the edges of an existing edge dataset. Nodes stay.\<close>

definition edge_step :: "state \<Rightarrow> state \<Rightarrow> bool" where
  "edge_step s s' =
     (nodesDataset s' = nodesDataset s \<and> highlightedNodes s' = highlightedNodes s
      \<and> edgesDataset s \<noteq> None \<and> edgesDataset s' \<noteq> None
      \<and> (\<forall>j. (existingEdge j s' = existingEdge j s
                 \<and> (j \<in> set (highlightedEdges s') \<longleftrightarrow> j \<in> set (highlightedEdges s)))
               \<or> (j \<in> set (highlightedEdges s')
                   \<and> (\<exists>e. existingEdge j s' = Some e \<and> edge_looks_highlighted e))))"

text \<open>A step of either kind, or several in a row.\<close>

definition highlight_step :: "state \<Rightarrow> state \<Rightarrow> bool" where
  "highlight_step s s' =
     ((\<forall>j. (existingNode j s' = existingNode j s
              \<and> (j \<in> set (highlightedNodes s') \<longleftrightarrow> j \<in> set (highlightedNodes s)))
            \<or> (j \<in> set (highlightedNodes s')
                \<and> (\<exists>n. existingNode j s' = Some n \<and> looks_highlighted n)))
      \<and> (\<forall>j. (existingEdge j s' = existingEdge j s
                \<and> (j \<in> set (highlightedEdges s') \<longleftrightarrow> j \<in> set (highlightedEdges s)))
              \<or> (j \<in> set (highlightedEdges s')
                  \<and> (\<exists>e. existingEdge j s' = Some e \<and> edge_looks_highlighted e))))"

text \<open>
  What holds of the page at every moment of a session. Before the datasets exist nothing
  is highlighted or selected. Once they exist, the node dataset holds one item per id,
  every node that is not highlighted has the colour and size unhighlighting would give
  it, and every highlighted node and edge is in its dataset and looks highlighted.
\<close>

definition page_inv :: "state \<Rightarrow> bool" where
  "page_inv s =
     (case nodesDataset s of
        None \<Rightarrow>
          edgesDataset s = None \<and> highlightedNodes s = [] \<and> highlightedEdges s = []
          \<and> selectedNodeId s = None
      | Some ds \<Rightarrow>
          distinct (map v_id ds) \<and> edgesDataset s \<noteq> None
          \<and> (\<forall>j n. existingNode j s = Some n
                  \<longrightarrow> at_baseline n \<or> j \<in> set (highlightedNodes s))
          \<and> (\<forall>j \<in> set (highlightedNodes s).
                 \<exists>n. existingNode j s = Some n \<and> looks_highlighted n)
          \<and> (\<forall>j \<in> set (highlightedEdges s).
                 \<exists>e. existingEdge j s = Some e \<and> edge_looks_highlighted e))"

section \<open>Properties\<close>

subsection \<open>Search\<close>

lemma nodesDataset_searchNodes_response:
  "nodesDataset (searchNodes_response q r s) = nodesDataset s"
  by (cases r) (simp_all add: searchNodes_response_def displaySearchResults_def)

lemma nodesDataset_arrivals: "nodesDataset (arrivals rs s) = nodesDataset s"
  by (induction rs arbitrary: s) (auto simp: nodesDataset_searchNodes_response)

lemma arrivals_append: "arrivals (xs @ ys) s = arrivals ys (arrivals xs s)"
  by (induction xs arbitrary: s) auto

lemma search_results_response_cong:
  "nodesDataset s = nodesDataset s' \<Longrightarrow>
   search_results (searchNodes_response q r s) = search_results (searchNodes_response q r s')"
  by (cases r) (simp_all add: searchNodes_response_def displaySearchResults_def)

text \<open>
  C1, as the code has it. \<^verbatim>\<open>searchNodes\<close> keeps no request sequence number and compares
  nothing when a response arrives: whatever responses came before, the list shows what
  the response that arrived last produces, for the query that response belongs to.
\<close>

theorem last_arrival_is_displayed:
  "search_results (arrivals (earlier @ [(query, response)]) s)
     = search_results (searchNodes_response query response s)
   \<and> search_results (searchNodes_response query (HttpOk (Some results)) s) = results"
  by (simp add: arrivals_append search_results_response_cong [OF nodesDataset_arrivals])
     (simp add: searchNodes_response_def displaySearchResults_def)

text \<open>
  C1 as stated fails: the search for \<^verbatim>\<open>lv\<close> is issued, then the search for \<^verbatim>\<open>lvr\<close>; the
  response for \<^verbatim>\<open>lvr\<close> arrives first and the response for \<^verbatim>\<open>lv\<close> after it. The list ends
  up showing the results of the earlier query.
\<close>

theorem stale_search_response_overwrites:
  "(let (s1, q1) = searchNodes_request (initial_state\<lparr>node_search := ''lv''\<rparr>);
        (s2, q2) = searchNodes_request (s1\<lparr>node_search := ''lvr''\<rparr>);
        s3 = arrivals [(''lvr'', HttpOk (Some [field_node ''lvr'' 2])),
                       (''lv'', HttpOk (Some [field_node ''lv_old'' 2]))] s2
    in q1 = Some ''lv'' \<and> q2 = Some ''lvr''
       \<and> requests s3 = [SearchRequest ''lv'' 10, SearchRequest ''lvr'' 10]
       \<and> search_results s3 = [field_node ''lv_old'' 2]
       \<and> search_results s3 \<noteq> [field_node ''lvr'' 2])"
  by (simp add: searchNodes_request_def searchNodes_response_def displaySearchResults_def
      initial_state_def toLowerCase_def lower_char_def trim_def is_space_def field_node_def
      Let_def)

lemma length_trim: "length (trim s) \<le> length s"
proof -
  have "length (dropWhile is_space (rev (dropWhile is_space s)))
          \<le> length (rev (dropWhile is_space s))"
    by (rule length_dropWhile_le)
  also have "\<dots> \<le> length s"
    by (simp add: length_dropWhile_le)
  finally show ?thesis
    by (simp add: trim_def)
qed

lemma short_text_short_query: "length v < 2 \<Longrightarrow> length (toLowerCase (trim v)) < 2"
  using length_trim [of v] by (simp add: toLowerCase_def)

text \<open>
  During a burst no timer comes due: each event only replaces the pending timer, and the
  field holds the last text typed.
\<close>

lemma keystrokes_burst:
  assumes "ks \<noteq> []" and "within_window wait ks"
    and "case timeout s of None \<Rightarrow> True | Some d \<Rightarrow> fst (hd ks) < d"
  shows "keystrokes wait ks s
           = s\<lparr>node_search := snd (last ks), timeout := Some (fst (last ks) + wait)\<rparr>"
  using assms
proof (induction wait ks arbitrary: s rule: within_window.induct)
  case (1 wait)
  then show ?case by simp
next
  case (2 wait k)
  then show ?case
    by (cases k) (auto simp: run_due_def executedFunction_def split: option.splits)
next
  case (3 wait t1 v1 t2 v2 ks)
  let ?s1 = "executedFunction wait t1 ((run_due t1 s)\<lparr>node_search := v1\<rparr>)"
  have run: "run_due t1 s = s"
    using 3(4) by (auto simp: run_due_def split: option.splits)
  have "keystrokes wait ((t2, v2) # ks) ?s1
          = ?s1\<lparr>node_search := snd (last ((t2, v2) # ks)),
                 timeout := Some (fst (last ((t2, v2) # ks)) + wait)\<rparr>"
    using 3 by (intro 3(1)) (auto simp: executedFunction_def)
  then show ?case
    by (simp add: run executedFunction_def)
qed

text \<open>
  C7. A burst of input events, each less than \<open>wait\<close> milliseconds after the one before,
  starting with no timer pending, leads to one run of \<^verbatim>\<open>searchNodes\<close>, on the last text:
  it issues one network call when the trimmed text has two characters or more and none
  otherwise. A text of fewer than two characters issues no call and clears the list, in
  a burst and whenever \<^verbatim>\<open>searchNodes\<close> runs.
\<close>

theorem debounced_search_calls:
  assumes "ks \<noteq> []" and "within_window wait ks" and "timeout s = None"
  shows "requests (settle (keystrokes wait ks s)) = requests s @ search_call (snd (last ks))
         \<and> length (requests (settle (keystrokes wait ks s))) \<le> length (requests s) + 1
         \<and> (2 \<le> length (toLowerCase (trim (snd (last ks)))) \<longrightarrow>
              length (requests (settle (keystrokes wait ks s))) = length (requests s) + 1)
         \<and> (length (snd (last ks)) < 2 \<longrightarrow>
              requests (settle (keystrokes wait ks s)) = requests s
              \<and> search_results (settle (keystrokes wait ks s)) = [])
         \<and> (length (node_search s) < 2 \<longrightarrow>
              searchNodes_request s = (s\<lparr>search_results := []\<rparr>, None))"
proof -
  have k: "keystrokes wait ks s
           = s\<lparr>node_search := snd (last ks), timeout := Some (fst (last ks) + wait)\<rparr>"
    using assms by (intro keystrokes_burst) auto
  have r: "requests (settle (keystrokes wait ks s)) = requests s @ search_call (snd (last ks))"
    by (simp add: k settle_def later_def searchNodes_request_def search_call_def Let_def)
  have c: "length (snd (last ks)) < 2 \<Longrightarrow> search_call (snd (last ks)) = []
            \<and> search_results (settle (keystrokes wait ks s)) = []"
    using short_text_short_query [of "snd (last ks)"]
    by (simp add: k settle_def later_def searchNodes_request_def search_call_def Let_def)
  have d: "length (node_search s) < 2 \<Longrightarrow>
             searchNodes_request s = (s\<lparr>search_results := []\<rparr>, None)"
    using short_text_short_query [of "node_search s"]
    by (simp add: searchNodes_request_def Let_def)
  show ?thesis
    using r c d by (auto simp: search_call_def Let_def)
qed

theorem debounced_search_calls_witness:
  "requests (settle (keystrokes 300
      [(0, ''l''), (30, ''lv''), (60, ''lvr''), (90, ''lvr_''), (120, ''lvr_r''),
       (150, ''lvr_ra''), (180, ''lvr_rat''), (210, ''lvr_rati''), (240, ''lvr_ratio''),
       (270, ''LVR_ratios'')] initial_state)) = [SearchRequest ''lvr_ratios'' 10]"
  using debounced_search_calls [of "[(0, ''l''), (30, ''lv''), (60, ''lvr''), (90, ''lvr_''),
       (120, ''lvr_r''), (150, ''lvr_ra''), (180, ''lvr_rat''), (210, ''lvr_rati''),
       (240, ''lvr_ratio''), (270, ''LVR_ratios'')]" 300 initial_state]
  by (simp add: initial_state_def search_call_def toLowerCase_def lower_char_def trim_def
      is_space_def)

subsection \<open>Queries and traversals that do not go through\<close>

text \<open>
  C5. When the query call fails on the network or returns a status that is not a success,
  the handler shows an error toast with the failure's message and leaves the graph data
  and the highlight state as they were; issuing the call does not touch them either.
\<close>

theorem failed_query_keeps_graph_and_highlight:
  "graph_and_highlight (executeQuery_response (NetworkFailure message) s)
     = graph_and_highlight s
   \<and> toasts (executeQuery_response (NetworkFailure message) s)
     = toasts s @ [(''Query failed: '' @ message, ''error'')]
   \<and> graph_and_highlight (executeQuery_response (HttpError body) s) = graph_and_highlight s
   \<and> toasts (executeQuery_response (HttpError body) s)
     = toasts s @ [(''Query failed: '' @ failure_message body, ''error'')]
   \<and> graph_and_highlight (fst (executeQuery_request s)) = graph_and_highlight s
   \<and> graph_and_highlight (executeQuery (NetworkFailure message) s) = graph_and_highlight s
   \<and> graph_and_highlight (executeQuery (HttpError body) s) = graph_and_highlight s"
  by (simp add: executeQuery_def executeQuery_response_def executeQuery_request_def
      query_failed_def showToast_def graph_and_highlight_def failure_message_def Let_def
      split: error_body.splits)

text \<open>
  C10. With no node selected, a traversal request only shows the warning toast: no
  network call is issued, and the datasets and the highlight sets stay as they were.
\<close>

theorem traversal_without_selection:
  assumes "selectedNodeId s = None"
  shows "showTraversal direction response s
           = Done (showToast ''Please select a node first'' ''warning'' s)
         \<and> requests (state_of (showTraversal direction response s)) = requests s
         \<and> graph_and_highlight (state_of (showTraversal direction response s))
             = graph_and_highlight s
         \<and> toasts (state_of (showTraversal direction response s))
             = toasts s @ [(''Please select a node first'', ''warning'')]"
  using assms
  by (simp add: showTraversal_def showToast_def state_of_def graph_and_highlight_def)

theorem traversal_without_selection_witness:
  "selectedNodeId loaded_AB = None
   \<and> requests (state_of (showTraversal ''upstream''
         (HttpOk \<lparr>t_nodes = Some [field_node ''C'' 2], t_edges = None, t_count = Some 1\<rparr>)
         loaded_AB)) = []
   \<and> toasts (state_of (showTraversal ''upstream''
         (HttpOk \<lparr>t_nodes = Some [field_node ''C'' 2], t_edges = None, t_count = Some 1\<rparr>)
         loaded_AB)) = [(''Please select a node first'', ''warning'')]"
proof -
  have sel: "selectedNodeId loaded_AB = None"
    by (simp add: loaded_AB_def processGraphData_def initializeNetwork_def initial_state_def
        field_node_def vis_node_of_def Let_def)
  have "requests loaded_AB = [] \<and> toasts loaded_AB = []"
    by (simp add: loaded_AB_def processGraphData_def initializeNetwork_def initial_state_def
        field_node_def vis_node_of_def Let_def)
  then show ?thesis
    using sel traversal_without_selection [OF sel, of "''upstream''"
      "HttpOk \<lparr>t_nodes = Some [field_node ''C'' 2], t_edges = None, t_count = Some 1\<rparr>"]
    by (simp add: state_of_def showToast_def)
qed

subsection \<open>Node sizes\<close>

text \<open>
  C9, as the code has it. A concept node has size 18. A field node whose tier is \<open>t \<ge> 0\<close>
  (1 when it has none) is never larger than that and is smaller from tier 1 on; among
  field nodes the size does not grow with the tier, never goes below 12 and is 12 from
  tier 4 on.
\<close>

theorem node_size_order:
  assumes "n_type c = Some ''CONCEPT''"
    and "n_type f \<noteq> Some ''CONCEPT''" and "n_type g \<noteq> Some ''CONCEPT''"
    and "(case n_tier f of None \<Rightarrow> 1 | Some x \<Rightarrow> x) = t"
    and "(case n_tier g of None \<Rightarrow> 1 | Some x \<Rightarrow> x) = u"
    and "0 \<le> t" and "t \<le> u"
  shows "getNodeSize g \<le> getNodeSize f \<and> getNodeSize f \<le> getNodeSize c
         \<and> (1 \<le> t \<longrightarrow> getNodeSize f < getNodeSize c)
         \<and> 12 \<le> getNodeSize g \<and> (4 \<le> u \<longrightarrow> getNodeSize g = 12)"
  using assms by (auto simp: getNodeSize_def max_def)

theorem node_size_order_witness:
  "getNodeSize (field_node ''G'' 3) \<le> getNodeSize (field_node ''F'' 1)
   \<and> getNodeSize (field_node ''F'' 1) \<le> getNodeSize (concept_node ''C'')
   \<and> getNodeSize (field_node ''F'' 1) < getNodeSize (concept_node ''C'')
   \<and> 12 \<le> getNodeSize (field_node ''G'' 3)"
  using node_size_order [of "concept_node ''C''" "field_node ''F'' 1" "field_node ''G'' 3" 1 3]
  by (simp add: field_node_def concept_node_def)

text \<open>
  C9 as stated fails: a field node of tier 0 has size 18, the size of a concept node, so
  the concept node is not the larger of the two.
\<close>

theorem concept_not_larger_than_tier0_field:
  "getNodeSize (field_node ''F'' 0) = 18 \<and> getNodeSize (concept_node ''C'') = 18
   \<and> \<not> getNodeSize (field_node ''F'' 0) < getNodeSize (concept_node ''C'')"
  by (simp add: getNodeSize_def field_node_def concept_node_def)

subsection \<open>Dataset lookups and updates\<close>

lemma ds_get_None_iff: "ds_get key i ds = None \<longleftrightarrow> i \<notin> key ` set ds"
  by (induction ds) auto

lemma ds_get_Some_key: "ds_get key i ds = Some x \<Longrightarrow> key x = i \<and> x \<in> set ds"
  by (induction ds) (auto split: if_splits)

lemma ds_get_update_same:
  assumes "key fresh = i" and "\<And>x. key (f x) = key x"
  shows "ds_get key i (ds_update key i f fresh ds)
           = Some (case ds_get key i ds of None \<Rightarrow> fresh | Some x \<Rightarrow> f x)"
  using assms by (induction ds) auto

lemma ds_get_update_other:
  assumes "j \<noteq> i" and "key fresh = i" and "\<And>x. key (f x) = key x"
  shows "ds_get key j (ds_update key i f fresh ds) = ds_get key j ds"
  using assms by (induction ds) auto

lemma keys_ds_update:
  assumes "key fresh = i" and "\<And>x. key (f x) = key x"
  shows "map key (ds_update key i f fresh ds)
           = (if i \<in> set (map key ds) then map key ds else map key ds @ [i])"
  using assms by (induction ds) auto

lemma ds_update_as_map:
  assumes "i \<in> key ` set ds" and "distinct (map key ds)"
  shows "ds_update key i f fresh ds = map (\<lambda>n. if key n = i then f n else n) ds"
  using assms
proof (induction ds)
  case Nil
  then show ?case by simp
next
  case (Cons x xs)
  show ?case
  proof (cases "key x = i")
    case True
    then have "i \<notin> key ` set xs"
      using Cons.prems(2) by auto
    then have "map (\<lambda>n. if key n = i then f n else n) xs = xs"
      by (intro map_idI) auto
    with True show ?thesis by simp
  next
    case False
    then show ?thesis using Cons by auto
  qed
qed

text \<open>
  A loop over a snapshot \<open>xs\<close> of items that updates, for each, the item of the dataset
  with the same id.
\<close>

lemma fold_update_node_as_map:
  assumes "distinct (map v_id xs)" and "v_id ` set xs \<subseteq> v_id ` set acc"
    and "distinct (map v_id acc)" and "\<And>x n. v_id (g x n) = v_id n"
  shows "fold (\<lambda>node. update_node (v_id node) (g node)) xs acc
           = map (\<lambda>n. case find (\<lambda>x. v_id x = v_id n) xs of
                         None \<Rightarrow> n | Some x \<Rightarrow> g x n) acc"
  using assms
proof (induction xs arbitrary: acc)
  case Nil
  then show ?case by simp
next
  case (Cons x xs)
  let ?step = "map (\<lambda>n. if v_id n = v_id x then g x n else n) acc"
  have upd: "update_node (v_id x) (g x) acc = ?step"
    unfolding update_node_def using Cons.prems by (intro ds_update_as_map) auto
  have ids: "map v_id ?step = map v_id acc"
    using Cons.prems(4) by (simp add: comp_def)
  have "set (map v_id ?step) = set (map v_id acc)"
    by (simp only: ids)
  then have img: "v_id ` set ?step = v_id ` set acc"
    by (simp only: set_map)
  have "fold (\<lambda>node. update_node (v_id node) (g node)) xs ?step
          = map (\<lambda>n. case find (\<lambda>x. v_id x = v_id n) xs of
                        None \<Rightarrow> n | Some x \<Rightarrow> g x n) ?step"
  proof (rule Cons.IH)
    show "distinct (map v_id xs)"
      using Cons.prems(1) by simp
    show "v_id ` set xs \<subseteq> v_id ` set ?step"
      using Cons.prems(2) by (simp only: img) auto
    show "distinct (map v_id ?step)"
      using Cons.prems(3) by (simp only: ids)
    show "\<And>x n. v_id (g x n) = v_id n"
      by (rule Cons.prems(4))
  qed
  moreover have "find (\<lambda>y. v_id y = v_id x) xs = None"
    using Cons.prems(1) by (force simp: find_None_iff image_iff)
  ultimately show ?case
    using Cons.prems(4) by (auto simp: upd)
qed

lemma find_own_id:
  assumes "distinct (map v_id ds)" and "n \<in> set ds"
  shows "find (\<lambda>x. v_id x = v_id n) ds = Some n"
  using assms by (induction ds) auto

subsection \<open>Tier filter\<close>

text \<open>
  C6. Applying the tier filter sets the hidden flag of every node of the dataset (hidden
  exactly when the node's tier, -1 when it has none, is not among the checked tiers) and
  changes no other field of any node; the highlight sets and the edge dataset stay as
  they were. The dataset holds one item per id.
\<close>

theorem filter_changes_only_hidden:
  assumes "nodesDataset s = Some ds" and "distinct (map v_id ds)"
  shows "nodesDataset (filterGraph s)
           = Some (map (\<lambda>n. n\<lparr>v_hidden := Some (\<not> tier_visible (tier_checked s) n)\<rparr>) ds)
         \<and> highlightedNodes (filterGraph s) = highlightedNodes s
         \<and> highlightedEdges (filterGraph s) = highlightedEdges s
         \<and> edgesDataset (filterGraph s) = edgesDataset s"
proof -
  let ?g = "\<lambda>node. set_hidden (\<not> tier_visible (tier_checked s) node)"
  have "fold (\<lambda>node. update_node (v_id node) (?g node)) ds ds
          = map (\<lambda>n. case find (\<lambda>x. v_id x = v_id n) ds of
                        None \<Rightarrow> n | Some x \<Rightarrow> ?g x n) ds"
    using assms(2) by (intro fold_update_node_as_map) (auto simp: set_hidden_def)
  also have "\<dots> = map (\<lambda>n. n\<lparr>v_hidden := Some (\<not> tier_visible (tier_checked s) n)\<rparr>) ds"
    using assms(2) by (intro map_cong) (auto simp: find_own_id set_hidden_def)
  finally show ?thesis
    using assms(1) by (simp add: filterGraph_def Let_def)
qed

text \<open>
  The scenario of the specification: nodes A (tier 1) and B (tier 3) highlighted by a
  query, then only tier 1 enabled. B is hidden, A is not, both stay highlighted.
\<close>

theorem filter_changes_only_hidden_witness:
  "highlightedNodes (filterGraph (highlighted_AB\<lparr>tier_checked := [1]\<rparr>)) = [''B'', ''A'']
   \<and> highlightedEdges (filterGraph (highlighted_AB\<lparr>tier_checked := [1]\<rparr>)) = [''edge-0'']
   \<and> map_option (map (\<lambda>n. (v_id n, v_hidden n, v_color n)))
         (nodesDataset (filterGraph (highlighted_AB\<lparr>tier_checked := [1]\<rparr>)))
       = Some [(''A'', Some False, Some HIGHLIGHT_COLOR), (''B'', Some True, Some HIGHLIGHT_COLOR)]"
proof -
  define ds where "ds = (case nodesDataset highlighted_AB of None \<Rightarrow> [] | Some d \<Rightarrow> d)"
  have h1: "nodesDataset (highlighted_AB\<lparr>tier_checked := [1]\<rparr>) = Some ds"
    unfolding ds_def by code_simp
  have h2: "distinct (map v_id ds)"
    unfolding ds_def by code_simp
  have a: "highlightedNodes (highlighted_AB\<lparr>tier_checked := [1]\<rparr>) = [''B'', ''A'']"
    by code_simp
  have b: "highlightedEdges (highlighted_AB\<lparr>tier_checked := [1]\<rparr>) = [''edge-0'']"
    by code_simp
  have c: "map (\<lambda>n. (v_id n, Some (\<not> tier_visible [1] n), v_color n)) ds
             = [(''A'', Some False, Some HIGHLIGHT_COLOR), (''B'', Some True, Some HIGHLIGHT_COLOR)]"
    unfolding ds_def by code_simp
  show ?thesis
    using filter_changes_only_hidden [OF h1 h2] a b c by (simp add: comp_def)
qed

subsection \<open>Highlighting and unhighlighting a node\<close>

text \<open>
  From any state, highlighting and then unhighlighting a node of the dataset sets its
  colour to the \<^verbatim>\<open>originalColor\<close> stored when the item was created and its size to
  \<^verbatim>\<open>getNodeSize\<close> of its data: nothing is recorded at the highlight. These are the
  values before the highlight whenever the item was at that baseline, as every item built
  from the export is.
\<close>

lemma highlight_then_unhighlight_gives_baseline:
  assumes "nodesDataset s = Some ds" and "ds_get v_id i ds = Some n"
  shows "(\<exists>s2. highlight_then_unhighlight i s = Done s2)
         \<and> existingNode i (state_of (highlight_then_unhighlight i s))
             = Some (n\<lparr>v_color := v_originalColor n, v_size := baseline_size n,
                       v_font := \<lparr>f_color = ''#e4e6eb'', f_size = 10\<rparr>\<rparr>)
         \<and> (at_baseline n \<longrightarrow>
              map_option v_color (existingNode i (state_of (highlight_then_unhighlight i s)))
                = Some (v_color n)
              \<and> map_option v_size (existingNode i (state_of (highlight_then_unhighlight i s)))
                = Some (v_size n))
         \<and> at_baseline (vis_node_of node)"
proof -
  let ?ds1 = "update_node i highlight_fields ds"
  let ?n1 = "highlight_fields n"
  have g1: "ds_get v_id i ?ds1 = Some ?n1"
    unfolding update_node_def using assms(2)
    by (subst ds_get_update_same) (auto simp: highlight_fields_def blank_node_def)
  have g2: "ds_get v_id i (update_node i (restore_fields ?n1) ?ds1)
              = Some (restore_fields ?n1 ?n1)"
    unfolding update_node_def [of i "restore_fields ?n1"] using g1
    by (subst ds_get_update_same) (auto simp: restore_fields_def blank_node_def)
  have r: "restore_fields ?n1 ?n1
             = n\<lparr>v_color := v_originalColor n, v_size := baseline_size n,
                  v_font := \<lparr>f_color = ''#e4e6eb'', f_size = 10\<rparr>\<rparr>"
    by (simp add: restore_fields_def highlight_fields_def baseline_size_def)
  have run: "highlight_then_unhighlight i s
       = Done (s\<lparr>highlightedNodes := set_delete i (set_add i (highlightedNodes s)),
                 nodesDataset := Some (update_node i (restore_fields ?n1) ?ds1)\<rparr>)"
    using assms(1) g1
    by (simp add: highlight_then_unhighlight_def highlightNode_def and_then_def Let_def)
  have ex: "existingNode i (state_of (highlight_then_unhighlight i s))
              = Some (n\<lparr>v_color := v_originalColor n, v_size := baseline_size n,
                        v_font := \<lparr>f_color = ''#e4e6eb'', f_size = 10\<rparr>\<rparr>)"
    by (simp add: run state_of_def existingNode_def g2 r)
  have base: "at_baseline (vis_node_of node)"
    by (simp add: at_baseline_def vis_node_of_def baseline_size_def)
  show ?thesis
    using run ex base by (simp add: at_baseline_def)
qed

subsection \<open>Edges of a traversal\<close>

lemma dynamic_id_not_bulk: "dynamic_edge_id edge \<noteq> bulk_edge_id idx"
  by (simp add: dynamic_edge_id_def bulk_edge_id_def)

text \<open>
  C3, as the code has it. A traversal edge is stored under the identifier
  \<^verbatim>\<open>dynamic-edge-<source>-<target>\<close>, which no edge of the bulk load carries (those are
  \<^verbatim>\<open>edge-<index>\<close>). When the dataset already holds an edge under that identifier, from
  an earlier traversal display, that edge is highlighted and none is inserted; otherwise
  one edge is inserted. Either way the identifier joins the highlighted edges.
\<close>

theorem traversal_edge_dedupes_by_dynamic_id:
  assumes "edgesDataset s = Some es"
  shows "dynamic_edge_id edge \<noteq> bulk_edge_id idx
         \<and> dynamic_edge_id edge \<in> set (highlightedEdges (traversal_edge edge s))
         \<and> map_option (map ve_id) (edgesDataset (traversal_edge edge s))
             = Some (if dynamic_edge_id edge \<in> set (map ve_id es) then map ve_id es
                     else map ve_id es @ [dynamic_edge_id edge])
         \<and> map_option ve_width (existingEdge (dynamic_edge_id edge) (traversal_edge edge s))
             = Some 3"
proof (cases "ds_get ve_id (dynamic_edge_id edge) es")
  case None
  then have "dynamic_edge_id edge \<notin> set (map ve_id es)"
    by (simp add: ds_get_None_iff)
  moreover have "ds_get ve_id (dynamic_edge_id edge) (es @ [x]) = Some x"
    if "ve_id x = dynamic_edge_id edge" for x
    using None that by (induction es) (auto split: if_splits)
  ultimately show ?thesis
    using assms None
    by (simp add: traversal_edge_def existingEdge_def ds_add_def set_add_def Let_def
        dynamic_id_not_bulk)
next
  case (Some x)
  then have "dynamic_edge_id edge \<in> set (map ve_id es)"
    using ds_get_None_iff [of ve_id "dynamic_edge_id edge" es] by auto
  then show ?thesis
    using assms Some
    by (simp add: traversal_edge_def existingEdge_def update_edge_def set_add_def Let_def
        dynamic_id_not_bulk keys_ds_update ds_get_update_same highlight_edge_def blank_edge_def)
qed

text \<open>Displaying the edge from A to B once more after \<open>traversed_AB\<close> inserts nothing.\<close>

theorem traversal_edge_dedupes_by_dynamic_id_witness:
  "map_option (map ve_id) (edgesDataset (traversal_edge (edge_between ''A'' ''B'') traversed_AB))
     = Some [''edge-0'', ''dynamic-edge-A-B'']
   \<and> map_option (map ve_id) (edgesDataset traversed_AB) = Some [''edge-0'', ''dynamic-edge-A-B'']"
proof -
  define es where "es = (case edgesDataset traversed_AB of None \<Rightarrow> [] | Some e \<Rightarrow> e)"
  have h: "edgesDataset traversed_AB = Some es"
    unfolding es_def by code_simp
  have k: "map ve_id es = [''edge-0'', ''dynamic-edge-A-B'']"
    unfolding es_def by code_simp
  have d: "dynamic_edge_id (edge_between ''A'' ''B'') = ''dynamic-edge-A-B''"
    by code_simp
  show ?thesis
    using traversal_edge_dedupes_by_dynamic_id [OF h, of "edge_between ''A'' ''B''" 0] h k d
    by simp
qed

text \<open>
  C3 as stated fails: the export holds the edge from A to B; node A is selected and its
  downstream traversal returns that same edge. The dataset then holds two visual edges
  from A to B, the bulk one and a new one under the traversal's identifier.
\<close>

theorem traversal_duplicates_bulk_edge:
  "map_option (map (\<lambda>e. (ve_id e, ve_from e, ve_to e)))
     (edgesDataset (state_of (showTraversal ''downstream'' traversal_AB
        (selectNode ''A'' loaded_AB))))
   = Some [(''edge-0'', Some ''A'', Some ''B''), (''dynamic-edge-A-B'', Some ''A'', Some ''B'')]"
  by code_simp

subsection \<open>The node dataset only grows\<close>

lemma grows_refl: "nodesDataset s \<noteq> None \<Longrightarrow> grows s s"
  by (auto simp: grows_def)

lemma grows_same: "nodesDataset s' = nodesDataset s \<Longrightarrow> nodesDataset s \<noteq> None \<Longrightarrow> grows s s'"
  by (auto simp: grows_def)

lemma grows_trans: "grows a b \<Longrightarrow> grows b c \<Longrightarrow> grows a c"
  by (auto simp: grows_def split: option.splits)

lemma grows_initialised: "grows s s' \<Longrightarrow> nodesDataset s \<noteq> None \<and> nodesDataset s' \<noteq> None"
  by (auto simp: grows_def split: option.splits)

lemma ids_of_canonical: "map v_id ds = map fst (map canonical ds)"
  by (simp add: canonical_def comp_def)


lemma canonical_update_node:
  assumes "\<And>x. canonical (f x) = canonical x"
  shows "map canonical (update_node i f ds)
           = (if i \<in> set (map v_id ds) then map canonical ds
              else map canonical ds @ [canonical (blank_node i)])"
proof -
  have id: "\<And>x. v_id (f x) = v_id x"
    using assms by (simp add: canonical_def)
  show ?thesis
    unfolding update_node_def using assms id
    by (induction ds) (auto simp: blank_node_def)
qed

lemma ids_update_node:
  assumes "\<And>x. v_id (f x) = v_id x"
  shows "map v_id (update_node i f ds)
           = (if i \<in> set (map v_id ds) then map v_id ds else map v_id ds @ [i])"
  unfolding update_node_def using assms
  by (subst keys_ds_update) (auto simp: blank_node_def)

lemma grows_update_node:
  assumes "nodesDataset s = Some ds" and "\<And>x. canonical (f x) = canonical x"
    and "nodesDataset s' = Some (update_node i f ds)"
  shows "grows s s' \<and> present i s'"
proof -
  have id: "\<And>x. v_id (f x) = v_id x"
    using assms(2) by (simp add: canonical_def)
  show ?thesis
    using assms(1,3)
    by (auto simp: grows_def present_def canonical_update_node [OF assms(2)]
        ids_update_node [OF id])
qed

lemma canonical_highlight_fields: "canonical (highlight_fields x) = canonical x"
  by (simp add: canonical_def highlight_fields_def)

lemma canonical_restore_fields: "canonical (restore_fields n x) = canonical x"
  by (simp add: canonical_def restore_fields_def)

lemma highlightNode_grows:
  assumes "nodesDataset s \<noteq> None"
  shows "done_grows s (highlightNode i b s) \<and> (b \<longrightarrow> present i (state_of (highlightNode i b s)))"
proof -
  from assms obtain ds where ds: "nodesDataset s = Some ds" by auto
  show ?thesis
  proof (cases b)
    case True
    have "grows s s' \<and> present i s'"
      if "nodesDataset s' = Some (update_node i highlight_fields ds)" for s'
      using ds canonical_highlight_fields that by (rule grows_update_node)
    then show ?thesis
      using ds True by (simp add: highlightNode_def done_grows_def state_of_def Let_def)
  next
    case False
    show ?thesis
    proof (cases "ds_get v_id i ds")
      case None
      then show ?thesis
        using ds False
        by (simp add: highlightNode_def done_grows_def Let_def grows_same)
    next
      case (Some n)
      have "grows s s' \<and> present i s'"
        if "nodesDataset s' = Some (update_node i (restore_fields n) ds)" for s'
        using ds canonical_restore_fields that by (rule grows_update_node)
      then show ?thesis
        using ds False Some by (simp add: highlightNode_def done_grows_def Let_def)
    qed
  qed
qed

lemma addNodeToGraph_grows:
  assumes "nodesDataset s \<noteq> None"
  shows "grows s (addNodeToGraph node h s) \<and> present (n_id node) (addNodeToGraph node h s)"
proof -
  from assms obtain ds where ds: "nodesDataset s = Some ds" by auto
  show ?thesis
  proof (cases "ds_get v_id (n_id node) ds")
    case None
    then have "n_id node \<notin> v_id ` set ds"
      by (simp add: ds_get_None_iff)
    then show ?thesis
      using ds None
      by (auto simp: addNodeToGraph_def grows_def present_def ds_add_def Let_def)
  next
    case (Some x)
    then have "n_id node \<in> v_id ` set ds"
      using ds_get_None_iff [of v_id "n_id node" ds] by auto
    then show ?thesis
      using ds Some by (auto simp: addNodeToGraph_def grows_def present_def)
  qed
qed

lemma done_grows_and_then:
  assumes "done_grows s r" and "\<And>s1. grows s s1 \<Longrightarrow> done_grows s1 (f s1)"
  shows "done_grows s (and_then r f)"
proof -
  from assms(1) obtain s1 where r: "r = Done s1" and g1: "grows s s1"
    by (cases r) (auto simp: done_grows_def)
  from assms(2) [OF g1] obtain s2 where f: "f s1 = Done s2" and g2: "grows s1 s2"
    by (cases "f s1") (auto simp: done_grows_def)
  from g1 g2 have "grows s s2" by (rule grows_trans)
  then show ?thesis
    by (simp add: r f and_then_def done_grows_def)
qed

lemma done_grows_forEach:
  assumes "\<And>x s1. nodesDataset s1 \<noteq> None \<Longrightarrow> done_grows s1 (f x s1)"
    and "nodesDataset s \<noteq> None"
  shows "done_grows s (forEach f xs s)"
  using assms(2)
proof (induction xs arbitrary: s)
  case Nil
  then show ?case by (simp add: done_grows_def grows_refl)
next
  case (Cons x xs)
  show ?case
    unfolding forEach.simps
  proof (rule done_grows_and_then)
    show "done_grows s (f x s)" using Cons.prems by (rule assms(1))
    show "\<And>s1. grows s s1 \<Longrightarrow> done_grows s1 (forEach f xs s1)"
      using Cons.IH grows_initialised by blast
  qed
qed

lemma grows_fold:
  assumes "\<And>x s1. nodesDataset s1 \<noteq> None \<Longrightarrow> grows s1 (f x s1)"
    and "nodesDataset s \<noteq> None"
  shows "grows s (fold f xs s)"
  using assms(2)
proof (induction xs arbitrary: s)
  case Nil
  then show ?case by (simp add: grows_refl)
next
  case (Cons x xs)
  have "grows s (f x s)" using Cons.prems by (rule assms(1))
  moreover from this have "grows (f x s) (fold f xs (f x s))"
    using Cons.IH grows_initialised by blast
  ultimately show ?case by (auto intro: grows_trans)
qed



lemma nodesDataset_update_edge: "nodesDataset (update_edge i f s) = nodesDataset s"
  by (simp add: update_edge_def split: option.splits)

lemma nodesDataset_fold_update_edge:
  "nodesDataset (fold (\<lambda>i. update_edge i f) is s) = nodesDataset s"
  by (induction "is" arbitrary: s) (auto simp: nodesDataset_update_edge)

lemma clearHighlights_grows:
  assumes "nodesDataset s \<noteq> None"
  shows "done_grows s (clearHighlights s)"
  unfolding clearHighlights_def
proof (rule done_grows_and_then)
  show "done_grows s (forEach (\<lambda>nodeId. highlightNode nodeId False) (highlightedNodes s) s)"
    using assms by (intro done_grows_forEach) (auto simp: highlightNode_grows)
next
  fix s1 assume "grows s s1"
  then have "nodesDataset s1 \<noteq> None" using grows_initialised by blast
  then show "done_grows s1
         (let s2 = s1\<lparr>highlightedNodes := []\<rparr>;
              s3 = fold (\<lambda>edgeId. update_edge edgeId reset_edge) (highlightedEdges s2) s2
          in Done (s3\<lparr>highlightedEdges := []\<rparr>))"
    by (simp add: done_grows_def Let_def grows_same nodesDataset_fold_update_edge)
qed

lemma highlight_or_add_grows:
  assumes "nodesDataset s \<noteq> None"
  shows "done_grows s (highlight_or_add node s)"
    and "i \<in> set (case truthy_id node of None \<Rightarrow> [] | Some j \<Rightarrow> [j])
         \<Longrightarrow> present i (state_of (highlight_or_add node s))"
  using assms highlightNode_grows [OF assms, of _ True] addNodeToGraph_grows [OF assms]
  by (auto simp: highlight_or_add_def done_grows_def grows_refl state_of_def truthy_id_def
      split: option.splits)


lemma highlight_label_grows:
  assumes "nodesDataset s \<noteq> None"
  shows "done_grows s (highlight_label label s)"
  unfolding highlight_label_def Let_def
  using assms by (intro done_grows_forEach) (auto simp: highlightNode_grows)

lemma state_of_and_then_Done: "r = Done s1 \<Longrightarrow> state_of (and_then r f) = state_of (f s1)"
  by (simp add: and_then_def)

lemma done_grows_D: "done_grows s r \<Longrightarrow> \<exists>s1. r = Done s1 \<and> grows s s1"
  by (cases r) (auto simp: done_grows_def)



lemma traversal_node_grows:
  assumes "nodesDataset s \<noteq> None"
  shows "done_grows s (traversal_node node s)"
    and "i \<in> set [n_id node] \<Longrightarrow> present i (state_of (traversal_node node s))"
  using assms highlightNode_grows [OF assms, of _ True] addNodeToGraph_grows [OF assms]
  by (auto simp: traversal_node_def done_grows_def state_of_def split: option.splits)






subsection \<open>Applying a query result\<close>

lemma add_step_refl: "nodesDataset s \<noteq> None \<Longrightarrow> add_step s s {}"
  by (auto simp: add_step_def)

lemma add_step_initialised: "add_step s s' H \<Longrightarrow> nodesDataset s \<noteq> None \<and> nodesDataset s' \<noteq> None"
  by (auto simp: add_step_def split: option.splits)

lemma add_step_trans:
  assumes "add_step s s1 H1" and "add_step s1 s2 H2"
  shows "add_step s s2 (H1 \<union> H2)"
proof -
  from assms(1) obtain ds ds1 where d: "nodesDataset s = Some ds" "nodesDataset s1 = Some ds1"
    and a: "set (highlightedNodes s1) = set (highlightedNodes s) \<union> H1"
      "v_id ` set ds \<subseteq> v_id ` set ds1" "H1 \<subseteq> v_id ` set ds1"
      "H1 \<subseteq> v_id ` set ds \<longrightarrow> map canonical ds1 = map canonical ds"
      "edgesDataset s1 = edgesDataset s" "highlightedEdges s1 = highlightedEdges s"
    by (auto simp: add_step_def split: option.splits)
  from assms(2) d obtain ds2 where d2: "nodesDataset s2 = Some ds2"
    and b: "set (highlightedNodes s2) = set (highlightedNodes s1) \<union> H2"
      "v_id ` set ds1 \<subseteq> v_id ` set ds2" "H2 \<subseteq> v_id ` set ds2"
      "H2 \<subseteq> v_id ` set ds1 \<longrightarrow> map canonical ds2 = map canonical ds1"
      "edgesDataset s2 = edgesDataset s1" "highlightedEdges s2 = highlightedEdges s1"
    by (auto simp: add_step_def split: option.splits)
  have c: "map canonical ds2 = map canonical ds" if h: "H1 \<union> H2 \<subseteq> v_id ` set ds"
  proof -
    from h a(4) have e1: "map canonical ds1 = map canonical ds" by simp
    then have "map v_id ds1 = map v_id ds" by (simp only: ids_of_canonical)
    then have "set (map v_id ds1) = set (map v_id ds)" by simp
    then have "v_id ` set ds1 = v_id ` set ds" by (simp only: set_map)
    with h b(4) have "map canonical ds2 = map canonical ds1" by simp
    with e1 show ?thesis by simp
  qed
  have f1: "set (highlightedNodes s2) = set (highlightedNodes s) \<union> (H1 \<union> H2)"
    using a(1) b(1) by auto
  have f2: "v_id ` set ds \<subseteq> v_id ` set ds2"
    using a(2) b(2) by (rule subset_trans)
  have f3: "H1 \<union> H2 \<subseteq> v_id ` set ds2"
    using a(3) b(2) b(3) by blast
  have f4: "edgesDataset s2 = edgesDataset s" "highlightedEdges s2 = highlightedEdges s"
    using a(5,6) b(5,6) by simp_all
  show ?thesis
    unfolding add_step_def using c f1 f2 f3 f4 by (simp only: d d2 option.case) blast
qed

lemma done_add_D: "done_add s r H \<Longrightarrow> \<exists>s1. r = Done s1 \<and> add_step s s1 H"
  by (cases r) (auto simp: done_add_def)

lemma done_add_forEach:
  assumes "\<And>x s1. nodesDataset s1 \<noteq> None \<Longrightarrow> done_add s1 (f x s1) (k x)"
    and "nodesDataset s \<noteq> None"
  shows "done_add s (forEach f xs s) (\<Union>x \<in> set xs. k x)"
  using assms(2)
proof (induction xs arbitrary: s)
  case Nil
  then show ?case by (simp add: done_add_def add_step_refl)
next
  case (Cons x xs)
  from assms(1) [OF Cons.prems, of x] obtain s1 where f: "f x s = Done s1"
    and a1: "add_step s s1 (k x)"
    using done_add_D by blast
  then have "nodesDataset s1 \<noteq> None" using add_step_initialised by blast
  from Cons.IH [OF this] obtain s2 where r: "forEach f xs s1 = Done s2"
    and a2: "add_step s1 s2 (\<Union>x \<in> set xs. k x)"
    using done_add_D by blast
  from a1 a2 have "add_step s s2 (k x \<union> (\<Union>x \<in> set xs. k x))"
    by (rule add_step_trans)
  then show ?case
    by (simp add: f r and_then_def done_add_def)
qed

lemma idset_update_node:
  assumes "\<And>x. v_id (f x) = v_id x"
  shows "v_id ` set (update_node i f ds) = insert i (v_id ` set ds)"
proof -
  have "set (map v_id (update_node i f ds)) = insert i (set (map v_id ds))"
    by (auto simp: ids_update_node [OF assms])
  then show ?thesis
    by (simp only: set_map)
qed

lemma highlightNode_True_add:
  assumes "nodesDataset s \<noteq> None"
  shows "done_add s (highlightNode i True s) {i}"
proof -
  from assms obtain ds where ds: "nodesDataset s = Some ds" by auto
  have id: "\<And>x. v_id (highlight_fields x) = v_id x"
    by (simp add: highlight_fields_def)
  show ?thesis
    using ds
    by (auto simp: highlightNode_def done_add_def add_step_def Let_def set_add_def
        idset_update_node [OF id] canonical_update_node [OF canonical_highlight_fields])
qed

lemma highlight_or_add_add:
  assumes "nodesDataset s \<noteq> None"
  shows "done_add s (highlight_or_add node s) (set (case truthy_id node of None \<Rightarrow> [] | Some j \<Rightarrow> [j]))"
proof -
  from assms obtain ds where ds: "nodesDataset s = Some ds" by auto
  show ?thesis
  proof (cases "truthy_id node")
    case None
    then show ?thesis
      using assms
      by (auto simp: highlight_or_add_def truthy_id_def done_add_def add_step_refl
          split: option.splits if_splits)
  next
    case (Some j)
    then obtain n where n: "node = Some n" "n_id n = j" "j \<noteq> []"
      by (auto simp: truthy_id_def split: option.splits if_splits)
    show ?thesis
    proof (cases "ds_get v_id j ds")
      case None
      then have "j \<notin> v_id ` set ds" by (simp add: ds_get_None_iff)
      then show ?thesis
        using ds n None Some
        by (auto simp: highlight_or_add_def existingNode_def addNodeToGraph_def done_add_def
            add_step_def ds_add_def set_add_def Let_def)
    next
      case (Some x)
      then show ?thesis
        using ds n highlightNode_True_add [OF assms, of j] \<open>truthy_id node = Some j\<close>
        by (simp add: highlight_or_add_def existingNode_def)
    qed
  qed
qed

lemma Union_truthy_ids:
  "(\<Union>x \<in> set ns. set (case truthy_id x of None \<Rightarrow> [] | Some j \<Rightarrow> [j])) = highlightedIds ns"
  unfolding highlightedIds_def by (induction ns) (auto split: option.splits)

lemma upserts_add:
  assumes "nodesDataset s \<noteq> None"
  shows "done_add s (forEach highlight_or_add ns s) (highlightedIds ns)"
proof -
  have "done_add s (forEach highlight_or_add ns s)
          (\<Union>x \<in> set ns. set (case truthy_id x of None \<Rightarrow> [] | Some j \<Rightarrow> [j]))"
    using assms by (intro done_add_forEach highlight_or_add_add)
  then show ?thesis
    by (simp only: Union_truthy_ids)
qed

lemma repaint_refl: "nodesDataset s \<noteq> None \<Longrightarrow> repaint s s"
  by (auto simp: repaint_def)

lemma repaint_trans: "repaint a b \<Longrightarrow> repaint b c \<Longrightarrow> repaint a c"
  by (auto simp: repaint_def split: option.splits)

lemma repaint_initialised: "repaint a b \<Longrightarrow> nodesDataset b \<noteq> None"
  by (auto simp: repaint_def split: option.splits)

lemma highlightNode_False_repaint:
  assumes "nodesDataset s \<noteq> None"
  shows "\<exists>s1. highlightNode i False s = Done s1 \<and> repaint s s1"
proof -
  from assms obtain ds where ds: "nodesDataset s = Some ds" by auto
  show ?thesis
  proof (cases "ds_get v_id i ds")
    case None
    then show ?thesis
      using ds by (simp add: highlightNode_def Let_def repaint_def)
  next
    case (Some n)
    then have "i \<in> set (map v_id ds)"
      using ds_get_None_iff [of v_id i ds] by auto
    then show ?thesis
      using ds Some
      by (simp add: highlightNode_def Let_def repaint_def
          canonical_update_node [OF canonical_restore_fields])
  qed
qed

lemma unhighlight_all_repaint:
  assumes "nodesDataset s \<noteq> None"
  shows "\<exists>s1. forEach (\<lambda>i. highlightNode i False) xs s = Done s1 \<and> repaint s s1"
  using assms
proof (induction xs arbitrary: s)
  case Nil
  then show ?case by (simp add: repaint_refl)
next
  case (Cons x xs)
  from highlightNode_False_repaint [OF Cons.prems, of x]
  obtain s1 where h: "highlightNode x False s = Done s1" and r1: "repaint s s1" by blast
  from Cons.IH [OF repaint_initialised [OF r1]]
  obtain s2 where f: "forEach (\<lambda>i. highlightNode i False) xs s1 = Done s2"
    and r2: "repaint s1 s2" by blast
  from r1 r2 have "repaint s s2" by (rule repaint_trans)
  then show ?case by (simp add: h f and_then_def)
qed

lemma ekeys_ds_update:
  assumes "i \<in> ve_id ` set es" and "\<And>e. ekey (f e) = ekey e"
  shows "map ekey (ds_update ve_id i f fresh es) = map ekey es"
  using assms(1) by (induction es) (auto simp: assms(2))

lemma edge_ids_of_keys: "edge_ids s = (case edge_keys s of None \<Rightarrow> {} | Some ks \<Rightarrow> fst ` set ks)"
  by (auto simp: edge_ids_def edge_keys_def ekey_def image_iff split: option.splits)

lemma edge_keys_update_edge:
  assumes "i \<in> edge_ids s" and "\<And>e. ekey (f e) = ekey e"
  shows "edge_keys (update_edge i f s) = edge_keys s"
  using assms
  by (auto simp: edge_keys_def edge_ids_def update_edge_def ekeys_ds_update split: option.splits)

lemma ekey_reset_edge: "ekey (reset_edge e) = ekey e"
  by (simp add: ekey_def reset_edge_def)

lemma ekey_highlight_edge: "ekey (highlight_edge e) = ekey e"
  by (simp add: ekey_def highlight_edge_def)

lemma frame_update_edge:
  "nodesDataset (update_edge i f s) = nodesDataset s
   \<and> highlightedNodes (update_edge i f s) = highlightedNodes s
   \<and> highlightedEdges (update_edge i f s) = highlightedEdges s"
  by (simp add: update_edge_def split: option.splits)

lemma reset_edges_fold:
  "nodesDataset (fold (\<lambda>i. update_edge i reset_edge) xs s) = nodesDataset s
   \<and> highlightedNodes (fold (\<lambda>i. update_edge i reset_edge) xs s) = highlightedNodes s
   \<and> (set xs \<subseteq> edge_ids s \<longrightarrow>
        edge_keys (fold (\<lambda>i. update_edge i reset_edge) xs s) = edge_keys s)"
proof (induction xs arbitrary: s)
  case Nil
  then show ?case by simp
next
  case (Cons x xs)
  have k: "edge_keys (update_edge x reset_edge s) = edge_keys s" if "x \<in> edge_ids s"
    using that ekey_reset_edge by (rule edge_keys_update_edge)
  then have "edge_ids (update_edge x reset_edge s) = edge_ids s" if "x \<in> edge_ids s"
    using that by (simp add: edge_ids_of_keys)
  then show ?case
    using Cons.IH [of "update_edge x reset_edge s"] k by (auto simp: frame_update_edge)
qed

lemma clearHighlights_summary:
  assumes "nodesDataset s = Some ds"
  shows "\<exists>s1 ds1. clearHighlights s = Done s1 \<and> nodesDataset s1 = Some ds1
           \<and> map canonical ds1 = map canonical ds
           \<and> highlightedNodes s1 = [] \<and> highlightedEdges s1 = []
           \<and> (set (highlightedEdges s) \<subseteq> edge_ids s \<longrightarrow> edge_keys s1 = edge_keys s)"
proof -
  have init: "nodesDataset s \<noteq> None" using assms by simp
  from unhighlight_all_repaint [OF init, of "highlightedNodes s"]
  obtain s1 where f: "forEach (\<lambda>i. highlightNode i False) (highlightedNodes s) s = Done s1"
    and r: "repaint s s1" by blast
  from r assms obtain ds1 where d1: "nodesDataset s1 = Some ds1"
    and c1: "map canonical ds1 = map canonical ds"
    and e1: "edgesDataset s1 = edgesDataset s" and h1: "highlightedEdges s1 = highlightedEdges s"
    by (auto simp: repaint_def split: option.splits)
  let ?s2 = "s1\<lparr>highlightedNodes := []\<rparr>"
  let ?s3 = "fold (\<lambda>edgeId. update_edge edgeId reset_edge) (highlightedEdges ?s2) ?s2"
  have run: "clearHighlights s = Done (?s3\<lparr>highlightedEdges := []\<rparr>)"
    by (simp add: clearHighlights_def f and_then_def Let_def)
  have ids: "edge_ids ?s2 = edge_ids s" "edge_keys ?s2 = edge_keys s"
    using e1 by (simp_all add: edge_ids_def edge_keys_def)
  have fr: "nodesDataset ?s3 = Some ds1" "highlightedNodes ?s3 = []"
    using reset_edges_fold [of "highlightedEdges ?s2" ?s2] d1 by simp_all
  have ek: "edge_keys ?s3 = edge_keys s" if "set (highlightedEdges s) \<subseteq> edge_ids s"
    using reset_edges_fold [of "highlightedEdges ?s2" ?s2] that h1 ids by simp
  have "edge_keys (?s3\<lparr>highlightedEdges := []\<rparr>) = edge_keys ?s3"
    by (simp add: edge_keys_def)
  then show ?thesis
    using run fr c1 ek by simp
qed

lemma edges_between_of_keys:
  "edges_between ids es
     = map fst (filter (\<lambda>k. has_id ids (fst (snd k)) \<and> has_id ids (snd (snd k))) (map ekey es))"
  by (induction es) (auto simp: edges_between_def ekey_def)

lemma highlight_between_fold:
  assumes "ve_id ` set xs \<subseteq> edge_ids s"
  shows "nodesDataset (fold (highlight_between ids) xs s) = nodesDataset s
         \<and> highlightedNodes (fold (highlight_between ids) xs s) = highlightedNodes s
         \<and> edge_keys (fold (highlight_between ids) xs s) = edge_keys s
         \<and> set (highlightedEdges (fold (highlight_between ids) xs s))
             = set (highlightedEdges s) \<union> set (edges_between ids xs)"
  using assms
proof (induction xs arbitrary: s)
  case Nil
  then show ?case by (simp add: edges_between_def)
next
  case (Cons x xs)
  let ?s1 = "highlight_between ids x s"
  have mem: "ve_id x \<in> edge_ids s" using Cons.prems by simp
  have k1: "edge_keys ?s1 = edge_keys s"
    using edge_keys_update_edge [OF mem ekey_highlight_edge]
    by (simp add: highlight_between_def edge_keys_def)
  then have i1: "edge_ids ?s1 = edge_ids s"
    by (simp add: edge_ids_of_keys)
  have f1: "nodesDataset ?s1 = nodesDataset s" "highlightedNodes ?s1 = highlightedNodes s"
    by (simp_all add: highlight_between_def frame_update_edge)
  have h1: "set (highlightedEdges ?s1)
              = set (highlightedEdges s) \<union> set (edges_between ids [x])"
    by (auto simp: highlight_between_def edges_between_def set_add_def)
  have "ve_id ` set xs \<subseteq> edge_ids ?s1" using Cons.prems i1 by simp
  from Cons.IH [OF this] show ?case
    using k1 f1 h1 by (auto simp: edges_between_def)
qed

lemma matches_of_canonical:
  "map v_id (filter (label_matches l) ds)
     = map fst (filter (\<lambda>k. case fst (snd k) of
                               None \<Rightarrow> False
                             | Some lb \<Rightarrow> toLowerCase lb = toLowerCase l) (map canonical ds))"
  by (induction ds) (auto simp: label_matches_def canonical_def)

lemma path_matches_cong:
  "map canonical ds = map canonical ds' \<Longrightarrow> path_matches labels ds = path_matches labels ds'"
  by (simp add: path_matches_def matches_of_canonical)

lemma highlight_label_add:
  assumes "nodesDataset s = Some ds"
  shows "done_add s (highlight_label l s) (set (path_matches [l] ds))"
proof -
  have init: "nodesDataset s \<noteq> None" using assms by simp
  have "done_add s (forEach (\<lambda>node. highlightNode (v_id node) True) (filter (label_matches l) ds) s)
          (\<Union>node \<in> set (filter (label_matches l) ds). {v_id node})"
    using init by (intro done_add_forEach highlightNode_True_add)
  moreover have "(\<Union>node \<in> set (filter (label_matches l) ds). {v_id node})
                   = set (path_matches [l] ds)"
    by (auto simp: path_matches_def)
  ultimately show ?thesis
    using assms by (simp add: highlight_label_def)
qed

lemma path_matches_present: "set (path_matches labels ds) \<subseteq> v_id ` set ds"
  by (auto simp: path_matches_def)

lemma path_matches_Cons:
  "set (path_matches (l # ls) ds) = set (path_matches [l] ds) \<union> set (path_matches ls ds)"
  by (simp add: path_matches_def)

lemma labels_add:
  assumes "nodesDataset s = Some ds"
  shows "done_add s (forEach highlight_label labels s) (set (path_matches labels ds))"
  using assms
proof (induction labels arbitrary: s ds)
  case Nil
  then show ?case by (simp add: done_add_def add_step_refl path_matches_def)
next
  case (Cons l ls)
  from highlight_label_add [OF Cons.prems, of l]
  obtain s1 where h: "highlight_label l s = Done s1"
    and a1: "add_step s s1 (set (path_matches [l] ds))"
    using done_add_D by blast
  from a1 Cons.prems path_matches_present [of "[l]" ds]
  obtain ds1 where d1: "nodesDataset s1 = Some ds1" and c1: "map canonical ds1 = map canonical ds"
    by (auto simp: add_step_def split: option.splits)
  from Cons.IH [OF d1]
  obtain s2 where f: "forEach highlight_label ls s1 = Done s2"
    and a2: "add_step s1 s2 (set (path_matches ls ds1))"
    using done_add_D by blast
  have "path_matches ls ds1 = path_matches ls ds"
    using c1 by (rule path_matches_cong)
  with a1 a2 have "add_step s s2 (set (path_matches [l] ds) \<union> set (path_matches ls ds))"
    using add_step_trans by fastforce
  moreover have "set (path_matches (l # ls) ds)
                   = set (path_matches [l] ds) \<union> set (path_matches ls ds)"
    by (rule path_matches_Cons)
  ultimately show ?case
    by (simp add: h f and_then_def done_add_def)
qed

lemma canonical_same_ids:
  assumes "map canonical ds' = map canonical ds"
  shows "v_id ` set ds' = v_id ` set ds"
proof -
  from assms have "map v_id ds' = map v_id ds" by (simp only: ids_of_canonical)
  then have "set (map v_id ds') = set (map v_id ds)" by simp
  then show ?thesis by (simp only: set_map)
qed

lemma edges_between_ids: "set (edges_between ids es) \<subseteq> ve_id ` set es"
  by (auto simp: edges_between_def)

lemma highlightQueryPath_summary:
  assumes "nodesDataset s = Some ds"
  shows "\<exists>s4 ds4. highlightQueryPath result s = Done s4 \<and> nodesDataset s4 = Some ds4
          \<and> set (highlightedNodes s4)
              = highlightedIds (nodesToHighlight result)
                \<union> set (path_matches (pathLabels result) ds4)
          \<and> highlightedIds (nodesToHighlight result) \<subseteq> v_id ` set ds4
          \<and> set (highlightedEdges s4)
              = (case edgesDataset s4 of
                   None \<Rightarrow> {}
                 | Some es \<Rightarrow> set (edges_between (highlightedIds (nodesToHighlight result)) es))
          \<and> set (highlightedEdges s4) \<subseteq> edge_ids s4
          \<and> (highlightedIds (nodesToHighlight result) \<subseteq> v_id ` set ds
                \<and> set (highlightedEdges s) \<subseteq> edge_ids s
              \<longrightarrow> map canonical ds4 = map canonical ds \<and> edge_keys s4 = edge_keys s)"
proof -
  define H where "H = highlightedIds (nodesToHighlight result)"
  define labels where "labels = pathLabels result"
  from clearHighlights_summary [OF assms]
  obtain s1 ds1 where c: "clearHighlights s = Done s1" and d1: "nodesDataset s1 = Some ds1"
    and c1: "map canonical ds1 = map canonical ds"
    and hn1: "highlightedNodes s1 = []" and he1: "highlightedEdges s1 = []"
    and ek1: "set (highlightedEdges s) \<subseteq> edge_ids s \<longrightarrow> edge_keys s1 = edge_keys s"
    by blast
  have i1: "nodesDataset s1 \<noteq> None" using d1 by simp
  from upserts_add [OF i1, of "nodesToHighlight result"]
  obtain s2 where f2: "forEach highlight_or_add (nodesToHighlight result) s1 = Done s2"
    and a2: "add_step s1 s2 H"
    unfolding H_def using done_add_D by blast
  from a2 d1 obtain ds2 where d2: "nodesDataset s2 = Some ds2"
    and hn2: "set (highlightedNodes s2) = H"
    and p2: "H \<subseteq> v_id ` set ds2"
    and k2: "H \<subseteq> v_id ` set ds1 \<longrightarrow> map canonical ds2 = map canonical ds1"
    and e2: "edgesDataset s2 = edgesDataset s1" and he2: "highlightedEdges s2 = []"
    using hn1 he1 by (auto simp: add_step_def split: option.splits)
  define s3 where "s3 = (case edgesDataset s2 of
                           None \<Rightarrow> s2
                         | Some es \<Rightarrow> fold (highlight_between H) es s2)"
  have s3: "nodesDataset s3 = Some ds2 \<and> highlightedNodes s3 = highlightedNodes s2
            \<and> edge_keys s3 = edge_keys s2
            \<and> set (highlightedEdges s3)
                = (case edgesDataset s2 of None \<Rightarrow> {} | Some es \<Rightarrow> set (edges_between H es))"
  proof (cases "edgesDataset s2")
    case None
    then show ?thesis using d2 he2 by (simp add: s3_def)
  next
    case (Some es)
    then have "ve_id ` set es \<subseteq> edge_ids s2" by (simp add: edge_ids_def)
    from highlight_between_fold [OF this, of H] show ?thesis
      using Some d2 he2 by (simp add: s3_def)
  qed
  then have d3: "nodesDataset s3 = Some ds2" by simp
  from labels_add [OF d3, of labels]
  obtain s4 where f4: "forEach highlight_label labels s3 = Done s4"
    and a4: "add_step s3 s4 (set (path_matches labels ds2))"
    using done_add_D by blast
  from a4 d3 path_matches_present [of labels ds2]
  obtain ds4 where d4: "nodesDataset s4 = Some ds4"
    and c4: "map canonical ds4 = map canonical ds2"
    and hn4: "set (highlightedNodes s4) = set (highlightedNodes s3) \<union> set (path_matches labels ds2)"
    and e4: "edgesDataset s4 = edgesDataset s3" and he4: "highlightedEdges s4 = highlightedEdges s3"
    by (auto simp: add_step_def split: option.splits)
  have run: "highlightQueryPath result s = Done s4"
    by (simp add: highlightQueryPath_def c f2 and_then_def Let_def H_def [symmetric]
        s3_def [symmetric] labels_def [symmetric] f4)
  have pm: "path_matches labels ds4 = path_matches labels ds2"
    using c4 by (rule path_matches_cong)
  have nodes: "set (highlightedNodes s4) = H \<union> set (path_matches labels ds4)"
    using hn4 s3 hn2 pm by simp
  have pres: "H \<subseteq> v_id ` set ds4"
    using p2 canonical_same_ids [OF c4] by simp
  have ek: "edge_keys s4 = edge_keys s2"
    using e4 s3 by (simp add: edge_keys_def)
  have edges: "set (highlightedEdges s4)
                 = (case edgesDataset s4 of None \<Rightarrow> {} | Some es \<Rightarrow> set (edges_between H es))"
  proof (cases "edgesDataset s2")
    case None
    then have "edgesDataset s4 = None" using ek by (simp add: edge_keys_def)
    then show ?thesis using he4 s3 None by simp
  next
    case (Some es2)
    then obtain es4 where es4: "edgesDataset s4 = Some es4" and "map ekey es4 = map ekey es2"
      using ek by (auto simp: edge_keys_def)
    then have "edges_between H es4 = edges_between H es2"
      by (simp add: edges_between_of_keys)
    then show ?thesis using he4 s3 Some es4 by simp
  qed
  have sub: "set (highlightedEdges s4) \<subseteq> edge_ids s4"
    using edges edges_between_ids [of H] by (auto simp: edge_ids_def split: option.splits)
  have keep: "map canonical ds4 = map canonical ds \<and> edge_keys s4 = edge_keys s"
    if "H \<subseteq> v_id ` set ds" "set (highlightedEdges s) \<subseteq> edge_ids s"
  proof -
    have "H \<subseteq> v_id ` set ds1" using that(1) canonical_same_ids [OF c1] by simp
    with k2 c1 c4 have "map canonical ds4 = map canonical ds" by simp
    moreover have "edge_keys s2 = edge_keys s1" using e2 by (simp add: edge_keys_def)
    ultimately show ?thesis using ek ek1 that(2) by simp
  qed
  show ?thesis
    using run d4 nodes pres edges sub keep unfolding H_def labels_def by blast
qed

subsection \<open>Steps that highlight\<close>

lemma ds_get_append:
  "ds_get key j (xs @ [x])
     = (case ds_get key j xs of Some y \<Rightarrow> Some y | None \<Rightarrow> if key x = j then Some x else None)"
  by (induction xs) auto

lemma node_step_refl: "node_step s s"
  by (simp add: node_step_def)

lemma node_step_trans:
  assumes "node_step a b" and "node_step b c"
  shows "node_step a c"
proof -
  have "(existingNode j c = existingNode j a
          \<and> (j \<in> set (highlightedNodes c) \<longleftrightarrow> j \<in> set (highlightedNodes a)))
        \<or> (j \<in> set (highlightedNodes c)
            \<and> (\<exists>n. existingNode j c = Some n \<and> looks_highlighted n))" for j
  proof -
    from assms(1) have ab: "(existingNode j b = existingNode j a
          \<and> (j \<in> set (highlightedNodes b) \<longleftrightarrow> j \<in> set (highlightedNodes a)))
        \<or> (j \<in> set (highlightedNodes b)
            \<and> (\<exists>n. existingNode j b = Some n \<and> looks_highlighted n))"
      unfolding node_step_def by blast
    from assms(2) have bc: "(existingNode j c = existingNode j b
          \<and> (j \<in> set (highlightedNodes c) \<longleftrightarrow> j \<in> set (highlightedNodes b)))
        \<or> (j \<in> set (highlightedNodes c)
            \<and> (\<exists>n. existingNode j c = Some n \<and> looks_highlighted n))"
      unfolding node_step_def by blast
    from ab bc show ?thesis by auto
  qed
  moreover have "edgesDataset c = edgesDataset a \<and> highlightedEdges c = highlightedEdges a"
    using assms by (simp add: node_step_def)
  ultimately show ?thesis
    unfolding node_step_def by blast
qed

lemma highlightNode_True_lookups:
  assumes "nodesDataset s = Some ds"
  shows "\<exists>s'. highlightNode i True s = Done s'
           \<and> highlightedNodes s' = set_add i (highlightedNodes s)
           \<and> edgesDataset s' = edgesDataset s \<and> highlightedEdges s' = highlightedEdges s
           \<and> (\<forall>j. j \<noteq> i \<longrightarrow> existingNode j s' = existingNode j s)
           \<and> (\<exists>n. existingNode i s' = Some n \<and> looks_highlighted n)"
proof -
  have k: "v_id (highlight_fields (blank_node i)) = i" "\<And>x. v_id (highlight_fields x) = v_id x"
    by (simp_all add: highlight_fields_def blank_node_def)
  have other: "ds_get v_id j (update_node i highlight_fields ds) = ds_get v_id j ds" if "j \<noteq> i" for j
    unfolding update_node_def using that k by (intro ds_get_update_other) auto
  have same: "ds_get v_id i (update_node i highlight_fields ds)
                = Some (case ds_get v_id i ds of
                          None \<Rightarrow> highlight_fields (blank_node i)
                        | Some x \<Rightarrow> highlight_fields x)"
    unfolding update_node_def using k by (intro ds_get_update_same) auto
  have look: "looks_highlighted (highlight_fields x)" for x
    by (simp add: looks_highlighted_def highlight_fields_def)
  have "looks_highlighted (case ds_get v_id i ds of
                          None \<Rightarrow> highlight_fields (blank_node i)
                        | Some x \<Rightarrow> highlight_fields x)"
    using look by (cases "ds_get v_id i ds") auto
  then show ?thesis
    using assms other same by (simp add: highlightNode_def Let_def existingNode_def)
qed

lemma highlightNode_True_step:
  assumes "nodesDataset s \<noteq> None"
  shows "node_step s (state_of (highlightNode i True s))"
proof -
  from assms obtain ds where "nodesDataset s = Some ds" by auto
  from highlightNode_True_lookups [OF this, of i]
  obtain s' where r: "highlightNode i True s = Done s'"
    and h: "highlightedNodes s' = set_add i (highlightedNodes s)"
    and e: "edgesDataset s' = edgesDataset s" "highlightedEdges s' = highlightedEdges s"
    and o: "\<forall>j. j \<noteq> i \<longrightarrow> existingNode j s' = existingNode j s"
    and l: "\<exists>n. existingNode i s' = Some n \<and> looks_highlighted n"
    by blast
  have "node_step s s'"
    unfolding node_step_def using h e o l by (auto simp: set_add_def)
  then show ?thesis by (simp add: r state_of_def)
qed

lemma addNodeToGraph_step: "node_step s (addNodeToGraph node True s)"
proof (cases "nodesDataset s")
  case None
  then show ?thesis by (simp add: addNodeToGraph_def node_step_refl)
next
  case (Some ds)
  show ?thesis
  proof (cases "ds_get v_id (n_id node) ds")
    case (Some x)
    then show ?thesis using \<open>nodesDataset s = Some ds\<close>
      by (simp add: addNodeToGraph_def node_step_refl)
  next
    case None
    then show ?thesis using \<open>nodesDataset s = Some ds\<close>
      by (auto simp: addNodeToGraph_def node_step_def Let_def existingNode_def ds_add_def
          ds_get_append set_add_def looks_highlighted_def split: option.splits)
  qed
qed

lemma node_step_forEach:
  assumes "\<And>x s1. nodesDataset s1 \<noteq> None \<Longrightarrow> done_grows s1 (f x s1)"
    and "\<And>x s1. nodesDataset s1 \<noteq> None \<Longrightarrow> node_step s1 (state_of (f x s1))"
    and "nodesDataset s \<noteq> None"
  shows "node_step s (state_of (forEach f xs s))"
  using assms(3)
proof (induction xs arbitrary: s)
  case Nil
  then show ?case by (simp add: state_of_def node_step_refl)
next
  case (Cons x xs)
  from assms(1) [OF Cons.prems, of x] obtain s1 where r: "f x s = Done s1" and g: "grows s s1"
    using done_grows_D by blast
  have n1: "nodesDataset s1 \<noteq> None" using g grows_initialised by blast
  have a: "node_step s s1" using assms(2) [OF Cons.prems, of x] by (simp add: r state_of_def)
  have b: "node_step s1 (state_of (forEach f xs s1))" by (rule Cons.IH [OF n1])
  have "state_of (forEach f (x # xs) s) = state_of (forEach f xs s1)"
    by (simp add: r and_then_def)
  then show ?case using node_step_trans [OF a b] by simp
qed


lemma highlight_or_add_step:
  assumes "nodesDataset s \<noteq> None"
  shows "node_step s (state_of (highlight_or_add node s))"
proof (cases node)
  case None
  then show ?thesis by (simp add: highlight_or_add_def state_of_def node_step_refl)
next
  case (Some n)
  show ?thesis
  proof (cases "n_id n = [] \<or> existingNode (n_id n) s = None")
    case True
    then show ?thesis using Some addNodeToGraph_step [of s n]
      by (auto simp: highlight_or_add_def state_of_def node_step_refl)
  next
    case False
    then show ?thesis using Some highlightNode_True_step [OF assms, of "n_id n"]
      by (auto simp: highlight_or_add_def)
  qed
qed

lemma traversal_node_step:
  assumes "nodesDataset s \<noteq> None"
  shows "node_step s (state_of (traversal_node node s))"
proof (cases "existingNode (n_id node) s")
  case None
  then show ?thesis using addNodeToGraph_step [of s node]
    by (simp add: traversal_node_def state_of_def)
next
  case (Some x)
  then show ?thesis using highlightNode_True_step [OF assms, of "n_id node"]
    by (simp add: traversal_node_def)
qed

lemma highlight_label_step:
  assumes "nodesDataset s \<noteq> None"
  shows "node_step s (state_of (highlight_label label s))"
  unfolding highlight_label_def Let_def
  by (rule node_step_forEach [OF _ _ assms])
     (simp_all add: highlightNode_grows highlightNode_True_step)

subsection \<open>Steps on the edges\<close>

lemma edge_step_refl: "edgesDataset s \<noteq> None \<Longrightarrow> edge_step s s"
  by (simp add: edge_step_def)

lemma edge_step_trans:
  assumes "edge_step a b" and "edge_step b c"
  shows "edge_step a c"
proof -
  have "(existingEdge j c = existingEdge j a
          \<and> (j \<in> set (highlightedEdges c) \<longleftrightarrow> j \<in> set (highlightedEdges a)))
        \<or> (j \<in> set (highlightedEdges c)
            \<and> (\<exists>e. existingEdge j c = Some e \<and> edge_looks_highlighted e))" for j
  proof -
    from assms(1) have ab: "(existingEdge j b = existingEdge j a
          \<and> (j \<in> set (highlightedEdges b) \<longleftrightarrow> j \<in> set (highlightedEdges a)))
        \<or> (j \<in> set (highlightedEdges b)
            \<and> (\<exists>e. existingEdge j b = Some e \<and> edge_looks_highlighted e))"
      unfolding edge_step_def by blast
    from assms(2) have bc: "(existingEdge j c = existingEdge j b
          \<and> (j \<in> set (highlightedEdges c) \<longleftrightarrow> j \<in> set (highlightedEdges b)))
        \<or> (j \<in> set (highlightedEdges c)
            \<and> (\<exists>e. existingEdge j c = Some e \<and> edge_looks_highlighted e))"
      unfolding edge_step_def by blast
    from ab bc show ?thesis by auto
  qed
  moreover have "nodesDataset c = nodesDataset a \<and> highlightedNodes c = highlightedNodes a
                 \<and> edgesDataset a \<noteq> None \<and> edgesDataset c \<noteq> None"
    using assms by (simp add: edge_step_def)
  ultimately show ?thesis
    unfolding edge_step_def by blast
qed

lemma update_edge_lookups:
  assumes "edgesDataset s \<noteq> None" and "\<And>e. ve_id (f e) = ve_id e"
  shows "edgesDataset (update_edge i f s) \<noteq> None"
    and "j \<noteq> i \<Longrightarrow> existingEdge j (update_edge i f s) = existingEdge j s"
    and "existingEdge i (update_edge i f s)
           = Some (case existingEdge i s of None \<Rightarrow> f (blank_edge i) | Some e \<Rightarrow> f e)"
proof -
  from assms(1) obtain es where es: "edgesDataset s = Some es" by auto
  have k: "ve_id (f (blank_edge i)) = i"
    using assms(2) by (simp add: blank_edge_def)
  show "edgesDataset (update_edge i f s) \<noteq> None"
    using es by (simp add: update_edge_def)
  show "existingEdge j (update_edge i f s) = existingEdge j s" if "j \<noteq> i"
    using es ds_get_update_other [where key = ve_id and fresh = "f (blank_edge i)" and f = f
        and i = i and j = j and ds = es] that k assms(2)
    by (simp add: update_edge_def existingEdge_def)
  show "existingEdge i (update_edge i f s)
           = Some (case existingEdge i s of None \<Rightarrow> f (blank_edge i) | Some e \<Rightarrow> f e)"
    using es ds_get_update_same [where key = ve_id and fresh = "f (blank_edge i)" and f = f
        and i = i and ds = es] k assms(2)
    by (simp add: update_edge_def existingEdge_def)
qed

lemma highlight_between_step:
  assumes "edgesDataset s \<noteq> None"
  shows "edge_step s (highlight_between ids e s)"
proof (cases "has_id ids (ve_from e) \<and> has_id ids (ve_to e)")
  case False
  then show ?thesis using assms by (auto simp: highlight_between_def edge_step_refl)
next
  case True
  have k: "\<And>x. ve_id (highlight_edge x) = ve_id x" by (simp add: highlight_edge_def)
  have look: "\<And>x. edge_looks_highlighted (highlight_edge x)"
    by (simp add: edge_looks_highlighted_def highlight_edge_def)
  let ?u = "update_edge (ve_id e) highlight_edge s"
  have u: "edgesDataset ?u \<noteq> None"
    "\<And>j. j \<noteq> ve_id e \<Longrightarrow> existingEdge j ?u = existingEdge j s"
    "\<exists>x. existingEdge (ve_id e) ?u = Some x \<and> edge_looks_highlighted x"
    using update_edge_lookups [OF assms k] look
    by (auto split: option.splits)
  have fr: "nodesDataset ?u = nodesDataset s" "highlightedNodes ?u = highlightedNodes s"
    by (simp_all add: frame_update_edge)
  have eq: "highlight_between ids e s
              = ?u\<lparr>highlightedEdges := set_add (ve_id e) (highlightedEdges s)\<rparr>"
    using True by (simp add: highlight_between_def)
  have ex: "existingEdge j (?u\<lparr>highlightedEdges := set_add (ve_id e) (highlightedEdges s)\<rparr>)
              = existingEdge j ?u" for j
    by (simp add: existingEdge_def)
  have "(existingEdge j ?u = existingEdge j s
          \<and> (j \<in> set (set_add (ve_id e) (highlightedEdges s)) \<longleftrightarrow> j \<in> set (highlightedEdges s)))
        \<or> (j \<in> set (set_add (ve_id e) (highlightedEdges s))
            \<and> (\<exists>x. existingEdge j ?u = Some x \<and> edge_looks_highlighted x))" for j
    using u(2) [of j] u(3) by (cases "j = ve_id e") (auto simp: set_add_def)
  then show ?thesis
    unfolding eq edge_step_def using u(1) fr assms by (simp add: ex)
qed

lemma edge_step_fold:
  assumes "\<And>x s1. edgesDataset s1 \<noteq> None \<Longrightarrow> edge_step s1 (f x s1)"
    and "edgesDataset s \<noteq> None"
  shows "edge_step s (fold f xs s)"
  using assms(2)
proof (induction xs arbitrary: s)
  case Nil
  then show ?case by (simp add: edge_step_refl)
next
  case (Cons x xs)
  have a: "edge_step s (f x s)" by (rule assms(1) [OF Cons.prems])
  then have "edgesDataset (f x s) \<noteq> None" by (simp add: edge_step_def)
  from Cons.IH [OF this] have b: "edge_step (f x s) (fold f xs (f x s))" .
  show ?case using edge_step_trans [OF a b] by simp
qed

lemma traversal_edge_step:
  assumes "edgesDataset s \<noteq> None"
  shows "edge_step s (traversal_edge edge s)"
proof -
  from assms obtain es where es: "edgesDataset s = Some es" by auto
  define i where "i = dynamic_edge_id edge"
  have k: "\<And>x. ve_id (highlight_edge x) = ve_id x" by (simp add: highlight_edge_def)
  have look: "\<And>x. edge_looks_highlighted (highlight_edge x)"
    by (simp add: edge_looks_highlighted_def highlight_edge_def)
  show ?thesis
  proof (cases "existingEdge i s")
    case None
    then show ?thesis using es
      by (auto simp: traversal_edge_def Let_def i_def [symmetric] edge_step_def existingEdge_def
          ds_add_def ds_get_append set_add_def edge_looks_highlighted_def split: option.splits)
  next
    case (Some x)
    let ?u = "update_edge i highlight_edge s"
    have u: "edgesDataset ?u \<noteq> None"
      "\<And>j. j \<noteq> i \<Longrightarrow> existingEdge j ?u = existingEdge j s"
      "\<exists>x. existingEdge i ?u = Some x \<and> edge_looks_highlighted x"
      using update_edge_lookups [OF assms k] look
      by (auto split: option.splits)
    have fr: "nodesDataset ?u = nodesDataset s" "highlightedNodes ?u = highlightedNodes s"
      "highlightedEdges ?u = highlightedEdges s"
      by (simp_all add: frame_update_edge)
    have eq: "traversal_edge edge s = ?u\<lparr>highlightedEdges := set_add i (highlightedEdges s)\<rparr>"
      using Some by (simp add: traversal_edge_def Let_def i_def [symmetric] fr)
    have ex: "existingEdge j (?u\<lparr>highlightedEdges := set_add i (highlightedEdges s)\<rparr>)
                = existingEdge j ?u" for j
      by (simp add: existingEdge_def)
    have "(existingEdge j ?u = existingEdge j s
            \<and> (j \<in> set (set_add i (highlightedEdges s)) \<longleftrightarrow> j \<in> set (highlightedEdges s)))
          \<or> (j \<in> set (set_add i (highlightedEdges s))
              \<and> (\<exists>x. existingEdge j ?u = Some x \<and> edge_looks_highlighted x))" for j
      using u(2) [of j] u(3) by (cases "j = i") (auto simp: set_add_def)
    then show ?thesis
      unfolding eq edge_step_def using u(1) fr assms by (simp add: ex)
  qed
qed


subsection \<open>Clearing the highlights\<close>

lemma restore_own_fields: "restore_fields n n = unhighlighted n"
  by (simp add: restore_fields_def unhighlighted_def baseline_size_def)

lemma unhighlighted_twice: "unhighlighted (unhighlighted n) = unhighlighted n"
  by (simp add: unhighlighted_def baseline_size_def)

lemma at_baseline_unhighlighted: "at_baseline (unhighlighted n)"
  by (simp add: unhighlighted_def at_baseline_def baseline_size_def)

lemma reset_edge_at_rest: "reset_edge e = edge_at_rest e"
  by (simp add: reset_edge_def edge_at_rest_def)

lemma edge_at_rest_twice: "edge_at_rest (edge_at_rest e) = edge_at_rest e"
  by (simp add: edge_at_rest_def)

lemma highlightNode_False_lookups:
  assumes "nodesDataset s \<noteq> None"
  shows "\<exists>s'. highlightNode i False s = Done s' \<and> nodesDataset s' \<noteq> None
           \<and> edgesDataset s' = edgesDataset s \<and> highlightedEdges s' = highlightedEdges s
           \<and> (\<forall>j. existingNode j s'
                     = (if j = i then map_option unhighlighted (existingNode j s)
                        else existingNode j s))"
proof -
  from assms obtain ds where ds: "nodesDataset s = Some ds" by auto
  show ?thesis
  proof (cases "ds_get v_id i ds")
    case None
    then show ?thesis using ds
      by (simp add: highlightNode_def Let_def existingNode_def)
  next
    case (Some node)
    have k: "v_id (restore_fields node (blank_node i)) = i"
      "\<And>x. v_id (restore_fields node x) = v_id x"
      by (simp_all add: restore_fields_def blank_node_def)
    have other: "ds_get v_id j (update_node i (restore_fields node) ds) = ds_get v_id j ds"
      if "j \<noteq> i" for j
      unfolding update_node_def using that k by (intro ds_get_update_other) auto
    have "ds_get v_id i (update_node i (restore_fields node) ds)
            = Some (case ds_get v_id i ds of
                      None \<Rightarrow> restore_fields node (blank_node i)
                    | Some x \<Rightarrow> restore_fields node x)"
      unfolding update_node_def using k by (intro ds_get_update_same) auto
    then have same: "ds_get v_id i (update_node i (restore_fields node) ds)
                       = Some (unhighlighted node)"
      using Some by (simp add: restore_own_fields)
    show ?thesis
      using ds Some other same by (simp add: highlightNode_def Let_def existingNode_def)
  qed
qed

lemma unhighlight_all_lookups:
  assumes "nodesDataset s \<noteq> None"
  shows "\<exists>s'. forEach (\<lambda>i. highlightNode i False) xs s = Done s' \<and> nodesDataset s' \<noteq> None
           \<and> edgesDataset s' = edgesDataset s \<and> highlightedEdges s' = highlightedEdges s
           \<and> (\<forall>j. existingNode j s'
                     = (if j \<in> set xs then map_option unhighlighted (existingNode j s)
                        else existingNode j s))"
  using assms
proof (induction xs arbitrary: s)
  case Nil
  then show ?case by simp
next
  case (Cons x xs)
  from highlightNode_False_lookups [OF Cons.prems, of x]
  obtain s1 where r1: "highlightNode x False s = Done s1" and n1: "nodesDataset s1 \<noteq> None"
    and e1: "edgesDataset s1 = edgesDataset s" "highlightedEdges s1 = highlightedEdges s"
    and l1: "\<And>j. existingNode j s1
                = (if j = x then map_option unhighlighted (existingNode j s) else existingNode j s)"
    by blast
  from Cons.IH [OF n1]
  obtain s2 where r2: "forEach (\<lambda>i. highlightNode i False) xs s1 = Done s2"
    and n2: "nodesDataset s2 \<noteq> None"
    and e2: "edgesDataset s2 = edgesDataset s1" "highlightedEdges s2 = highlightedEdges s1"
    and l2: "\<And>j. existingNode j s2
                = (if j \<in> set xs then map_option unhighlighted (existingNode j s1)
                   else existingNode j s1)"
    by blast
  have run: "forEach (\<lambda>i. highlightNode i False) (x # xs) s = Done s2"
    by (simp add: r1 r2 and_then_def)
  have "existingNode j s2
          = (if j \<in> set (x # xs) then map_option unhighlighted (existingNode j s)
             else existingNode j s)" for j
    by (simp add: l2 l1 option.map_comp comp_def unhighlighted_twice)
  then show ?case using run n2 e1 e2 by simp
qed

lemma reset_edges_lookups:
  assumes "edgesDataset s \<noteq> None" and "\<forall>j \<in> set xs. existingEdge j s \<noteq> None"
  shows "edgesDataset (fold (\<lambda>i. update_edge i reset_edge) xs s) \<noteq> None
         \<and> (\<forall>j. existingEdge j (fold (\<lambda>i. update_edge i reset_edge) xs s)
                  = (if j \<in> set xs then map_option edge_at_rest (existingEdge j s)
                     else existingEdge j s))"
  using assms
proof (induction xs arbitrary: s)
  case Nil
  then show ?case by simp
next
  case (Cons x xs)
  let ?s1 = "update_edge x reset_edge s"
  have k: "\<And>e. ve_id (reset_edge e) = ve_id e" by (simp add: reset_edge_def)
  from Cons.prems obtain e where e: "existingEdge x s = Some e" by auto
  have n1: "edgesDataset ?s1 \<noteq> None"
    by (rule update_edge_lookups(1) [OF Cons.prems(1) k])
  have o1: "existingEdge j ?s1 = existingEdge j s" if "j \<noteq> x" for j
    using that by (rule update_edge_lookups(2) [OF Cons.prems(1) k])
  have s1: "existingEdge x ?s1 = Some (edge_at_rest e)"
    using update_edge_lookups(3) [OF Cons.prems(1) k, of x] e
    by (simp add: reset_edge_at_rest [symmetric])
  have l1: "existingEdge j ?s1
              = (if j = x then map_option edge_at_rest (existingEdge j s) else existingEdge j s)"
    for j
    using o1 [of j] s1 e by auto
  have p1: "\<forall>j \<in> set xs. existingEdge j ?s1 \<noteq> None"
    using Cons.prems(2) by (auto simp: l1)
  from Cons.IH [OF n1 p1]
  have n2: "edgesDataset (fold (\<lambda>i. update_edge i reset_edge) xs ?s1) \<noteq> None"
    and l2: "\<And>j. existingEdge j (fold (\<lambda>i. update_edge i reset_edge) xs ?s1)
                = (if j \<in> set xs then map_option edge_at_rest (existingEdge j ?s1)
                   else existingEdge j ?s1)"
    by simp_all
  have "existingEdge j (fold (\<lambda>i. update_edge i reset_edge) (x # xs) s)
          = (if j \<in> set (x # xs) then map_option edge_at_rest (existingEdge j s)
             else existingEdge j s)" for j
    by (simp add: l2 l1 option.map_comp comp_def edge_at_rest_twice)
  then show ?case using n2 by simp
qed

lemma clearHighlights_lookups:
  assumes "nodesDataset s \<noteq> None" and "edgesDataset s \<noteq> None"
    and "\<forall>j \<in> set (highlightedEdges s). existingEdge j s \<noteq> None"
  shows "\<exists>s'. clearHighlights s = Done s' \<and> nodesDataset s' \<noteq> None \<and> edgesDataset s' \<noteq> None
           \<and> highlightedNodes s' = [] \<and> highlightedEdges s' = []
           \<and> (\<forall>j. existingNode j s'
                     = (if j \<in> set (highlightedNodes s)
                        then map_option unhighlighted (existingNode j s)
                        else existingNode j s))
           \<and> (\<forall>j. existingEdge j s'
                     = (if j \<in> set (highlightedEdges s)
                        then map_option edge_at_rest (existingEdge j s)
                        else existingEdge j s))"
proof -
  from unhighlight_all_lookups [OF assms(1), of "highlightedNodes s"]
  obtain s1 where r1: "forEach (\<lambda>i. highlightNode i False) (highlightedNodes s) s = Done s1"
    and n1: "nodesDataset s1 \<noteq> None"
    and e1: "edgesDataset s1 = edgesDataset s" "highlightedEdges s1 = highlightedEdges s"
    and l1: "\<And>j. existingNode j s1
                = (if j \<in> set (highlightedNodes s)
                   then map_option unhighlighted (existingNode j s) else existingNode j s)"
    by blast
  let ?s2 = "s1\<lparr>highlightedNodes := []\<rparr>"
  let ?s3 = "fold (\<lambda>edgeId. update_edge edgeId reset_edge) (highlightedEdges s) ?s2"
  have run: "clearHighlights s = Done (?s3\<lparr>highlightedEdges := []\<rparr>)"
    by (simp add: clearHighlights_def r1 and_then_def Let_def e1)
  have ee: "existingEdge j ?s2 = existingEdge j s" for j
    by (simp add: existingEdge_def e1)
  have a2: "edgesDataset ?s2 \<noteq> None" using assms(2) e1 by simp
  have p2: "\<forall>j \<in> set (highlightedEdges s). existingEdge j ?s2 \<noteq> None"
    using assms(3) by (simp add: ee)
  from reset_edges_lookups [OF a2 p2]
  have n3: "edgesDataset ?s3 \<noteq> None"
    and l3: "\<And>j. existingEdge j ?s3
               = (if j \<in> set (highlightedEdges s) then map_option edge_at_rest (existingEdge j s)
                  else existingEdge j s)"
    by (simp_all add: ee)
  have fr: "nodesDataset ?s3 = nodesDataset s1" "highlightedNodes ?s3 = []"
    using reset_edges_fold [of "highlightedEdges s" ?s2] by simp_all
  have en: "existingNode j (?s3\<lparr>highlightedEdges := []\<rparr>) = existingNode j s1" for j
    by (simp add: existingNode_def fr)
  have ed: "existingEdge j (?s3\<lparr>highlightedEdges := []\<rparr>) = existingEdge j ?s3" for j
    by (simp add: existingEdge_def)
  show ?thesis
    unfolding run using n1 n3 fr l1 l3 by (simp add: en ed)
qed


subsection \<open>What holds at every moment of a session\<close>

lemma highlight_step_trans:
  assumes "highlight_step a b" and "highlight_step b c"
  shows "highlight_step a c"
proof -
  have n: "(existingNode j c = existingNode j a
          \<and> (j \<in> set (highlightedNodes c) \<longleftrightarrow> j \<in> set (highlightedNodes a)))
        \<or> (j \<in> set (highlightedNodes c)
            \<and> (\<exists>n. existingNode j c = Some n \<and> looks_highlighted n))" for j
  proof -
    from assms(1) have ab: "(existingNode j b = existingNode j a
          \<and> (j \<in> set (highlightedNodes b) \<longleftrightarrow> j \<in> set (highlightedNodes a)))
        \<or> (j \<in> set (highlightedNodes b)
            \<and> (\<exists>n. existingNode j b = Some n \<and> looks_highlighted n))"
      unfolding highlight_step_def by blast
    from assms(2) have bc: "(existingNode j c = existingNode j b
          \<and> (j \<in> set (highlightedNodes c) \<longleftrightarrow> j \<in> set (highlightedNodes b)))
        \<or> (j \<in> set (highlightedNodes c)
            \<and> (\<exists>n. existingNode j c = Some n \<and> looks_highlighted n))"
      unfolding highlight_step_def by blast
    from ab bc show ?thesis by auto
  qed
  have e: "(existingEdge j c = existingEdge j a
          \<and> (j \<in> set (highlightedEdges c) \<longleftrightarrow> j \<in> set (highlightedEdges a)))
        \<or> (j \<in> set (highlightedEdges c)
            \<and> (\<exists>e. existingEdge j c = Some e \<and> edge_looks_highlighted e))" for j
  proof -
    from assms(1) have ab: "(existingEdge j b = existingEdge j a
          \<and> (j \<in> set (highlightedEdges b) \<longleftrightarrow> j \<in> set (highlightedEdges a)))
        \<or> (j \<in> set (highlightedEdges b)
            \<and> (\<exists>e. existingEdge j b = Some e \<and> edge_looks_highlighted e))"
      unfolding highlight_step_def by blast
    from assms(2) have bc: "(existingEdge j c = existingEdge j b
          \<and> (j \<in> set (highlightedEdges c) \<longleftrightarrow> j \<in> set (highlightedEdges b)))
        \<or> (j \<in> set (highlightedEdges c)
            \<and> (\<exists>e. existingEdge j c = Some e \<and> edge_looks_highlighted e))"
      unfolding highlight_step_def by blast
    from ab bc show ?thesis by auto
  qed
  show ?thesis
    unfolding highlight_step_def using n e by blast
qed

lemma node_step_highlight_step: "node_step s s' \<Longrightarrow> highlight_step s s'"
  by (simp add: node_step_def highlight_step_def existingEdge_def)

lemma edge_step_highlight_step: "edge_step s s' \<Longrightarrow> highlight_step s s'"
  by (simp add: edge_step_def highlight_step_def existingNode_def)

lemma highlight_step_frame:
  assumes "nodesDataset s' = nodesDataset s" and "edgesDataset s' = edgesDataset s"
    and "highlightedNodes s' = highlightedNodes s" and "highlightedEdges s' = highlightedEdges s"
  shows "highlight_step s s'"
  using assms by (simp add: highlight_step_def existingNode_def existingEdge_def)

lemma grows_distinct:
  assumes "grows s s'" and "distinct (map v_id (loaded_nodes s))"
  shows "distinct (map v_id (loaded_nodes s'))"
  using assms by (auto simp: grows_def loaded_nodes_def split: option.splits)

lemma page_inv_loaded:
  assumes "nodesDataset s \<noteq> None"
  shows "page_inv s \<longleftrightarrow>
           distinct (map v_id (loaded_nodes s)) \<and> edgesDataset s \<noteq> None
           \<and> (\<forall>j n. existingNode j s = Some n
                   \<longrightarrow> at_baseline n \<or> j \<in> set (highlightedNodes s))
           \<and> (\<forall>j \<in> set (highlightedNodes s).
                  \<exists>n. existingNode j s = Some n \<and> looks_highlighted n)
           \<and> (\<forall>j \<in> set (highlightedEdges s).
                  \<exists>e. existingEdge j s = Some e \<and> edge_looks_highlighted e)"
  using assms by (cases "nodesDataset s") (simp_all add: page_inv_def loaded_nodes_def)

lemma inv_frame:
  assumes "page_inv s" and "nodesDataset s' = nodesDataset s"
    and "edgesDataset s' = edgesDataset s"
    and "highlightedNodes s' = highlightedNodes s" and "highlightedEdges s' = highlightedEdges s"
    and "nodesDataset s = None \<longrightarrow> selectedNodeId s' = None"
  shows "page_inv s'"
  using assms
  by (cases "nodesDataset s") (simp_all add: page_inv_def existingNode_def existingEdge_def)

lemma inv_highlight_step:
  assumes "page_inv s" and "grows s s'" and "highlight_step s s'" and "edgesDataset s' \<noteq> None"
  shows "page_inv s'"
proof -
  have l: "nodesDataset s \<noteq> None" and l': "nodesDataset s' \<noteq> None"
    using assms(2) grows_initialised by blast+
  note inv = assms(1) [unfolded page_inv_loaded [OF l]]
  have n: "(existingNode j s' = existingNode j s
          \<and> (j \<in> set (highlightedNodes s') \<longleftrightarrow> j \<in> set (highlightedNodes s)))
        \<or> (j \<in> set (highlightedNodes s')
            \<and> (\<exists>n. existingNode j s' = Some n \<and> looks_highlighted n))" for j
    using assms(3) unfolding highlight_step_def by blast
  have e: "(existingEdge j s' = existingEdge j s
          \<and> (j \<in> set (highlightedEdges s') \<longleftrightarrow> j \<in> set (highlightedEdges s)))
        \<or> (j \<in> set (highlightedEdges s')
            \<and> (\<exists>e. existingEdge j s' = Some e \<and> edge_looks_highlighted e))" for j
    using assms(3) unfolding highlight_step_def by blast
  have d: "distinct (map v_id (loaded_nodes s'))"
    using grows_distinct [OF assms(2)] inv by simp
  have s2: "at_baseline x \<or> j \<in> set (highlightedNodes s)" if "existingNode j s = Some x" for j x
    using inv that by blast
  have s5: "\<exists>x. existingNode j s = Some x \<and> looks_highlighted x"
    if "j \<in> set (highlightedNodes s)" for j
    using inv that by blast
  have s6: "\<exists>x. existingEdge j s = Some x \<and> edge_looks_highlighted x"
    if "j \<in> set (highlightedEdges s)" for j
    using inv that by blast
  have i2: "at_baseline n' \<or> j \<in> set (highlightedNodes s')" if "existingNode j s' = Some n'" for j n'
    using n [of j] s2 [of j n'] that by auto
  have i5: "\<exists>n. existingNode j s' = Some n \<and> looks_highlighted n"
    if "j \<in> set (highlightedNodes s')" for j
    using n [of j] s5 [of j] that by auto
  have i6: "\<exists>x. existingEdge j s' = Some x \<and> edge_looks_highlighted x"
    if "j \<in> set (highlightedEdges s')" for j
    using e [of j] s6 [of j] that by auto
  show ?thesis
    unfolding page_inv_loaded [OF l'] using d assms(4) i2 i5 i6 by blast
qed

lemma inv_clear:
  assumes "page_inv s" and "nodesDataset s \<noteq> None"
  shows "\<exists>s'. clearHighlights s = Done s' \<and> page_inv s' \<and> grows s s'
           \<and> edgesDataset s' \<noteq> None
           \<and> highlightedNodes s' = [] \<and> highlightedEdges s' = []
           \<and> (\<forall>j. existingNode j s'
                     = (if j \<in> set (highlightedNodes s)
                        then map_option unhighlighted (existingNode j s)
                        else existingNode j s))
           \<and> (\<forall>j. existingEdge j s'
                     = (if j \<in> set (highlightedEdges s)
                        then map_option edge_at_rest (existingEdge j s)
                        else existingEdge j s))"
proof -
  note inv = assms(1) [unfolded page_inv_loaded [OF assms(2)]]
  have e: "edgesDataset s \<noteq> None" using inv by simp
  have p: "\<forall>j \<in> set (highlightedEdges s). existingEdge j s \<noteq> None" using inv by auto
  from clearHighlights_lookups [OF assms(2) e p]
  obtain s' where r: "clearHighlights s = Done s'" and n': "nodesDataset s' \<noteq> None"
    and e': "edgesDataset s' \<noteq> None"
    and h: "highlightedNodes s' = []" "highlightedEdges s' = []"
    and ln: "\<And>j. existingNode j s'
                = (if j \<in> set (highlightedNodes s)
                   then map_option unhighlighted (existingNode j s) else existingNode j s)"
    and le: "\<And>j. existingEdge j s'
                = (if j \<in> set (highlightedEdges s)
                   then map_option edge_at_rest (existingEdge j s) else existingEdge j s)"
    by blast
  have g: "grows s s'"
    using clearHighlights_grows [OF assms(2)] by (simp add: r done_grows_def)
  have d: "distinct (map v_id (loaded_nodes s'))"
    using grows_distinct [OF g] inv by simp
  have s2: "at_baseline x \<or> j \<in> set (highlightedNodes s)" if "existingNode j s = Some x" for j x
    using inv that by blast
  have i2: "at_baseline n'" if "existingNode j s' = Some n'" for j n'
  proof (cases "j \<in> set (highlightedNodes s)")
    case True
    then show ?thesis using that ln [of j] by (auto simp: at_baseline_unhighlighted)
  next
    case False
    then show ?thesis using that ln [of j] s2 [of j n'] by auto
  qed
  have "page_inv s'"
    unfolding page_inv_loaded [OF n'] using d e' i2 h by simp
  then show ?thesis
    using r g e' h ln le by blast
qed


lemma highlightQueryPath_steps:
  assumes "page_inv s" and "nodesDataset s \<noteq> None"
  shows "\<exists>s1 s4. clearHighlights s = Done s1 \<and> highlightQueryPath result s = Done s4
           \<and> page_inv s1 \<and> grows s s1
           \<and> highlightedNodes s1 = [] \<and> highlightedEdges s1 = []
           \<and> (\<forall>j. existingNode j s1
                     = (if j \<in> set (highlightedNodes s)
                        then map_option unhighlighted (existingNode j s)
                        else existingNode j s))
           \<and> (\<forall>j. existingEdge j s1
                     = (if j \<in> set (highlightedEdges s)
                        then map_option edge_at_rest (existingEdge j s)
                        else existingEdge j s))
           \<and> grows s1 s4 \<and> highlight_step s1 s4 \<and> page_inv s4"
proof -
  define H where "H = highlightedIds (nodesToHighlight result)"
  from inv_clear [OF assms]
  obtain s1 where c: "clearHighlights s = Done s1" and v1: "page_inv s1" and g1: "grows s s1"
    and e1: "edgesDataset s1 \<noteq> None"
    and h1: "highlightedNodes s1 = []" "highlightedEdges s1 = []"
    and ln: "\<forall>j. existingNode j s1
                = (if j \<in> set (highlightedNodes s)
                   then map_option unhighlighted (existingNode j s) else existingNode j s)"
    and le: "\<forall>j. existingEdge j s1
                = (if j \<in> set (highlightedEdges s)
                   then map_option edge_at_rest (existingEdge j s) else existingEdge j s)"
    by blast
  have i1: "nodesDataset s1 \<noteq> None" using g1 grows_initialised by blast
  have "done_grows s1 (forEach highlight_or_add (nodesToHighlight result) s1)"
    using i1 by (intro done_grows_forEach) (auto simp: highlight_or_add_grows)
  then obtain s2 where f2: "forEach highlight_or_add (nodesToHighlight result) s1 = Done s2"
    and g2: "grows s1 s2"
    using done_grows_D by blast
  have "node_step s1 (state_of (forEach highlight_or_add (nodesToHighlight result) s1))"
    using i1 by (intro node_step_forEach) (auto simp: highlight_or_add_grows highlight_or_add_step)
  then have n2: "node_step s1 s2" by (simp add: f2 state_of_def)
  have e2: "edgesDataset s2 \<noteq> None" using n2 e1 by (simp add: node_step_def)
  have i2: "nodesDataset s2 \<noteq> None" using g2 grows_initialised by blast
  define s3 where "s3 = (case edgesDataset s2 of
                           None \<Rightarrow> s2
                         | Some es \<Rightarrow> fold (highlight_between H) es s2)"
  from e2 obtain es where es: "edgesDataset s2 = Some es" by auto
  have "edge_step s2 (fold (highlight_between H) es s2)"
    using e2 by (intro edge_step_fold) (auto simp: highlight_between_step)
  then have n3: "edge_step s2 s3" by (simp add: s3_def es)
  have g3: "grows s2 s3" using n3 i2 by (simp add: edge_step_def grows_same)
  have i3: "nodesDataset s3 \<noteq> None" using g3 grows_initialised by blast
  have "done_grows s3 (forEach highlight_label (pathLabels result) s3)"
    using i3 by (intro done_grows_forEach) (auto simp: highlight_label_grows)
  then obtain s4 where f4: "forEach highlight_label (pathLabels result) s3 = Done s4"
    and g4: "grows s3 s4"
    using done_grows_D by blast
  have "node_step s3 (state_of (forEach highlight_label (pathLabels result) s3))"
    using i3 by (intro node_step_forEach) (auto simp: highlight_label_grows highlight_label_step)
  then have n4: "node_step s3 s4" by (simp add: f4 state_of_def)
  have e4: "edgesDataset s4 \<noteq> None" using n4 n3 by (simp add: node_step_def edge_step_def)
  have run: "highlightQueryPath result s = Done s4"
    by (simp add: highlightQueryPath_def c f2 and_then_def Let_def H_def [symmetric]
        s3_def [symmetric] f4)
  have g: "grows s1 s4" using g2 g3 g4 by (blast intro: grows_trans)
  have st: "highlight_step s1 s4"
    using n2 n3 n4
    by (blast intro: highlight_step_trans node_step_highlight_step edge_step_highlight_step)
  have v4: "page_inv s4" by (rule inv_highlight_step [OF v1 g st e4])
  show ?thesis
    using c run v1 g1 h1 ln le g st v4 by blast
qed

lemma showTraversal_inv:
  assumes "page_inv s" and "nodesDataset s \<noteq> None"
  shows "page_inv (state_of (showTraversal direction response s))"
proof -
  have warn: "page_inv (showToast m k s)" for m k
    using assms(1) by (rule inv_frame) (simp_all add: showToast_def assms(2))
  have req: "page_inv (s\<lparr>requests := q\<rparr>)" for q
    using assms(1) by (rule inv_frame) (simp_all add: assms(2))
  have main: "page_inv (state_of r)"
    if r: "r = and_then (clearHighlights s0) (\<lambda>s1.
             and_then (highlightNode sel True s1) (\<lambda>s2.
             and_then (forEach traversal_node nodes s2) (\<lambda>s3.
               Done (showToast m k (case edges of None \<Rightarrow> s3
                                     | Some es \<Rightarrow> fold traversal_edge es s3)))))"
      and s0: "page_inv s0" "nodesDataset s0 \<noteq> None"
    for r s0 sel nodes edges m k
  proof -
    from inv_clear [OF s0]
    obtain s1 where c: "clearHighlights s0 = Done s1" and v1: "page_inv s1" and g1: "grows s0 s1"
      and e1: "edgesDataset s1 \<noteq> None"
      by blast
    have i1: "nodesDataset s1 \<noteq> None" using g1 grows_initialised by blast
    obtain s2 where h: "highlightNode sel True s1 = Done s2" and g2: "grows s1 s2"
      using highlightNode_grows [OF i1, of sel True] done_grows_D by blast
    have n2: "node_step s1 s2"
      using highlightNode_True_step [OF i1, of sel] by (simp add: h state_of_def)
    have i2: "nodesDataset s2 \<noteq> None" using g2 grows_initialised by blast
    have "done_grows s2 (forEach traversal_node nodes s2)"
      using i2 by (intro done_grows_forEach) (auto simp: traversal_node_grows)
    then obtain s3 where f: "forEach traversal_node nodes s2 = Done s3" and g3: "grows s2 s3"
      using done_grows_D by blast
    have "node_step s2 (state_of (forEach traversal_node nodes s2))"
      using i2 by (intro node_step_forEach) (auto simp: traversal_node_grows traversal_node_step)
    then have n3: "node_step s2 s3" by (simp add: f state_of_def)
    have e3: "edgesDataset s3 \<noteq> None" using n2 n3 e1 by (simp add: node_step_def)
    have i3: "nodesDataset s3 \<noteq> None" using g3 grows_initialised by blast
    define s4 where "s4 = (case edges of None \<Rightarrow> s3 | Some es \<Rightarrow> fold traversal_edge es s3)"
    have n4: "edge_step s3 s4"
    proof (cases edges)
      case None
      then show ?thesis using e3 by (simp add: s4_def edge_step_refl)
    next
      case (Some es)
      have "edge_step s3 (fold traversal_edge es s3)"
        using e3 by (intro edge_step_fold) (auto simp: traversal_edge_step)
      then show ?thesis using Some by (simp add: s4_def)
    qed
    have g4: "grows s3 s4" using n4 i3 by (simp add: edge_step_def grows_same)
    have e4: "edgesDataset s4 \<noteq> None" using n4 by (simp add: edge_step_def)
    have g: "grows s1 s4" using g2 g3 g4 by (blast intro: grows_trans)
    have st: "highlight_step s1 s4"
      using n2 n3 n4
      by (blast intro: highlight_step_trans node_step_highlight_step edge_step_highlight_step)
    have v4: "page_inv s4" by (rule inv_highlight_step [OF v1 g st e4])
    have i4: "nodesDataset s4 \<noteq> None" using g grows_initialised by blast
    have v5: "page_inv (showToast m k s4)"
      using v4 by (rule inv_frame) (simp_all add: showToast_def i4)
    have run: "r = Done (showToast m k s4)"
      by (simp add: r c h f and_then_def s4_def)
    show ?thesis by (simp add: run state_of_def v5)
  qed
  show ?thesis
  proof (cases "selectedNodeId s")
    case None
    then show ?thesis by (simp add: showTraversal_def state_of_def warn)
  next
    case sl: (Some sel)
    show ?thesis
    proof (cases "sel = []")
      case True
      then show ?thesis using sl by (simp add: showTraversal_def state_of_def warn)
    next
      case ne: False
      show ?thesis
      proof (cases "fetchTraversal response")
        case None
        then show ?thesis using sl ne by (simp add: showTraversal_def state_of_def req)
      next
        case ft: (Some result)
        show ?thesis
        proof (cases "t_nodes result")
          case None
          then show ?thesis using sl ne ft by (simp add: showTraversal_def state_of_def req)
        next
          case tn: (Some nodes)
          define s0 where
            "s0 = s\<lparr>requests := requests s @ [TraverseRequest sel direction (maxDepth s)]\<rparr>"
          have eq: "showTraversal direction response s
                = and_then (clearHighlights s0) (\<lambda>s1.
                  and_then (highlightNode sel True s1) (\<lambda>s2.
                  and_then (forEach traversal_node nodes s2) (\<lambda>s3.
                    Done (showToast
                      (''Found '' @ (case t_count result of
                                       None \<Rightarrow> ''undefined''
                                     | Some c \<Rightarrow> string_of_nat c)
                         @ '' '' @ direction @ '' nodes'') ''success''
                      (case t_edges result of
                         None \<Rightarrow> s3
                       | Some es \<Rightarrow> fold traversal_edge es s3)))))"
            using sl ne ft tn by (simp add: showTraversal_def Let_def s0_def)
          have v0: "page_inv s0" unfolding s0_def by (rule req)
          have n0: "nodesDataset s0 \<noteq> None" using assms(2) by (simp add: s0_def)
          from main [OF eq v0 n0] show ?thesis .
        qed
      qed
    qed
  qed
qed


subsection \<open>Before the datasets exist\<close>

lemma page_inv_fresh:
  assumes "nodesDataset s = None"
  shows "page_inv s \<longleftrightarrow>
           edgesDataset s = None \<and> highlightedNodes s = [] \<and> highlightedEdges s = []
           \<and> selectedNodeId s = None"
  using assms by (simp add: page_inv_def)

lemma fresh_selection: "page_inv s \<Longrightarrow> nodesDataset s = None \<Longrightarrow> selectedNodeId s = None"
  by (simp add: page_inv_def)

lemma forEach_idle:
  assumes "\<And>x. x \<in> set xs \<Longrightarrow> f x s = Done s"
  shows "forEach f xs s = Done s"
  using assms by (induction xs) (simp_all add: and_then_def)

lemma highlight_or_add_fresh: "nodesDataset s = None \<Longrightarrow> highlight_or_add node s = Done s"
  by (cases node) (simp_all add: highlight_or_add_def existingNode_def addNodeToGraph_def)

lemma highlight_label_fresh: "nodesDataset s = None \<Longrightarrow> highlight_label l s = Done s"
  by (simp add: highlight_label_def)

lemma clearHighlights_fresh:
  assumes "highlightedNodes s = []" and "highlightedEdges s = []"
  shows "clearHighlights s = Done (s\<lparr>highlightedNodes := [], highlightedEdges := []\<rparr>)"
  using assms by (simp add: clearHighlights_def and_then_def)

lemma highlightQueryPath_fresh:
  assumes "page_inv s" and "nodesDataset s = None"
  shows "highlightQueryPath result s = Done (s\<lparr>highlightedNodes := [], highlightedEdges := []\<rparr>)"
proof -
  let ?s1 = "s\<lparr>highlightedNodes := [], highlightedEdges := []\<rparr>"
  note inv = assms(1) [unfolded page_inv_fresh [OF assms(2)]]
  have c: "clearHighlights s = Done ?s1"
    using inv by (simp add: clearHighlights_fresh)
  have n1: "nodesDataset ?s1 = None" using assms(2) by simp
  have f2: "forEach highlight_or_add (nodesToHighlight result) ?s1 = Done ?s1"
    by (rule forEach_idle) (rule highlight_or_add_fresh [OF n1])
  have f4: "forEach highlight_label (pathLabels result) ?s1 = Done ?s1"
    by (rule forEach_idle) (rule highlight_label_fresh [OF n1])
  have e1: "edgesDataset ?s1 = None" using inv by simp
  show ?thesis
    unfolding highlightQueryPath_def c and_then_def outcome.case f2 Let_def e1 option.case
    by (rule f4)
qed

subsection \<open>The tier filter and the load\<close>

lemma ds_get_map:
  assumes "\<And>n. key (g n) = key n"
  shows "ds_get key j (map g ds) = map_option g (ds_get key j ds)"
  using assms by (induction ds) auto



lemma filterGraph_inv:
  assumes "page_inv s"
  shows "page_inv (filterGraph s)"
proof (cases "nodesDataset s")
  case None
  then show ?thesis using assms by (simp add: filterGraph_def)
next
  case (Some ds)
  then have l: "nodesDataset s \<noteq> None" by simp
  note inv = assms [unfolded page_inv_loaded [OF l]]
  have d: "distinct (map v_id ds)" using inv Some by (simp add: loaded_nodes_def)
  define g where "g = (\<lambda>n. case find (\<lambda>x. v_id x = v_id n) ds of
                               None \<Rightarrow> n
                             | Some x \<Rightarrow> set_hidden (\<not> tier_visible (tier_checked s) x) n)"
  have f: "fold (\<lambda>node. update_node (v_id node)
                   (set_hidden (\<not> tier_visible (tier_checked s) node))) ds ds = map g ds"
    unfolding g_def
    by (rule fold_update_node_as_map [where g = "\<lambda>x. set_hidden (\<not> tier_visible (tier_checked s) x)"])
       (simp_all add: d set_hidden_def)
  have eq: "filterGraph s = s\<lparr>nodesDataset := Some (map g ds)\<rparr>"
    using Some f by (simp add: filterGraph_def Let_def)
  have gk: "v_id (g n) = v_id n" "at_baseline (g n) = at_baseline n"
    "looks_highlighted (g n) = looks_highlighted n" for n
    by (simp_all add: g_def set_hidden_def at_baseline_def baseline_size_def
        looks_highlighted_def split: option.splits)
  have ln: "existingNode j (filterGraph s) = map_option g (existingNode j s)" for j
    using Some by (simp add: eq existingNode_def ds_get_map gk)
  have le: "existingEdge j (filterGraph s) = existingEdge j s" for j
    by (simp add: eq existingEdge_def)
  have l': "nodesDataset (filterGraph s) \<noteq> None" by (simp add: eq)
  have d': "distinct (map v_id (loaded_nodes (filterGraph s)))"
    using d by (simp add: eq loaded_nodes_def gk comp_def)
  have s2: "at_baseline x \<or> j \<in> set (highlightedNodes s)" if "existingNode j s = Some x" for j x
    using inv that by blast
  have s5: "\<exists>x. existingNode j s = Some x \<and> looks_highlighted x"
    if "j \<in> set (highlightedNodes s)" for j
    using inv that by blast
  have s6: "\<exists>x. existingEdge j s = Some x \<and> edge_looks_highlighted x"
    if "j \<in> set (highlightedEdges s)" for j
    using inv that by blast
  have h: "highlightedNodes (filterGraph s) = highlightedNodes s"
    "highlightedEdges (filterGraph s) = highlightedEdges s"
    "edgesDataset (filterGraph s) = edgesDataset s"
    by (simp_all add: eq)
  have i2: "at_baseline n' \<or> j \<in> set (highlightedNodes s)"
    if "existingNode j (filterGraph s) = Some n'" for j n'
    using that s2 [of j] by (auto simp: ln gk)
  have i5: "\<exists>n. existingNode j (filterGraph s) = Some n \<and> looks_highlighted n"
    if "j \<in> set (highlightedNodes s)" for j
    using s5 [OF that] by (auto simp: ln gk)
  have i6: "\<exists>x. existingEdge j (filterGraph s) = Some x \<and> edge_looks_highlighted x"
    if "j \<in> set (highlightedEdges s)" for j
    using s6 [OF that] by (simp add: le)
  show ?thesis
    unfolding page_inv_loaded [OF l'] h using d' inv i2 i5 i6 by blast
qed

lemma first_duplicate_None:
  "first_duplicate seen xs = None \<Longrightarrow> distinct xs \<and> set xs \<inter> set seen = {}"
  by (induction seen xs rule: first_duplicate.induct) (auto split: if_splits)


lemma initializeNetwork_inv:
  assumes "page_inv s" and "nodesDataset s = None"
  shows "page_inv (initializeNetwork s)"
proof -
  note inv = assms(1) [unfolded page_inv_fresh [OF assms(2)]]
  have toast: "page_inv (showToast m k s)" for m k
    using assms(1) by (rule inv_frame) (simp_all add: showToast_def inv)
  show ?thesis
  proof (cases "allNodes s = []")
    case True
    then show ?thesis by (simp add: initializeNetwork_def toast)
  next
    case False
    show ?thesis
    proof (cases "first_duplicate [] (map v_id (map vis_node_of (allNodes s)))")
      case (Some d)
      then show ?thesis using False by (simp add: initializeNetwork_def Let_def toast)
    next
      case None
      define nodes where "nodes = map vis_node_of (allNodes s)"
      define edges where "edges = map (\<lambda>(idx, edge). vis_edge_of idx edge)
                                    (zip [0 ..< length (allEdges s)] (allEdges s))"
      have eq: "initializeNetwork s = s\<lparr>nodesDataset := Some nodes, edgesDataset := Some edges\<rparr>"
        using False None by (simp add: initializeNetwork_def Let_def nodes_def edges_def)
      have d: "distinct (map v_id nodes)"
        using first_duplicate_None [OF None] by (simp add: nodes_def)
      have b: "at_baseline n" if "ds_get v_id j nodes = Some n" for j n
      proof -
        from ds_get_Some_key [OF that] have "n \<in> set nodes" by simp
        then obtain r where "n = vis_node_of r" by (auto simp: nodes_def)
        then show ?thesis by (simp add: at_baseline_def vis_node_of_def baseline_size_def)
      qed
      show ?thesis
        unfolding eq page_inv_def using d b inv by (simp add: existingNode_def)
    qed
  qed
qed

lemma loadGraphData_inv:
  assumes "page_inv s" and "nodesDataset s = None"
  shows "page_inv (loadGraphData export s)"
proof -
  have a: "page_inv (initializeNetwork (s\<lparr>allNodes := ns, allEdges := es\<rparr>))" for ns es
  proof (rule initializeNetwork_inv)
    show "page_inv (s\<lparr>allNodes := ns, allEdges := es\<rparr>)"
      using assms(1) by (rule inv_frame) (simp_all add: fresh_selection [OF assms])
    show "nodesDataset (s\<lparr>allNodes := ns, allEdges := es\<rparr>) = None"
      using assms(2) by simp
  qed
  have b: "page_inv (initializeNetwork ((showToast m k s)\<lparr>allNodes := ns, allEdges := es\<rparr>))"
    for m k ns es
  proof (rule initializeNetwork_inv)
    show "page_inv ((showToast m k s)\<lparr>allNodes := ns, allEdges := es\<rparr>)"
      using assms(1) by (rule inv_frame) (simp_all add: showToast_def fresh_selection [OF assms])
    show "nodesDataset ((showToast m k s)\<lparr>allNodes := ns, allEdges := es\<rparr>) = None"
      using assms(2) by (simp add: showToast_def)
  qed
  show ?thesis
    by (cases export) (simp_all add: loadGraphData_def processGraphData_def a b)
qed

subsection \<open>Every event keeps it\<close>

lemma search_field_frame:
  "nodesDataset (later s) = nodesDataset s \<and> edgesDataset (later s) = edgesDataset s
   \<and> highlightedNodes (later s) = highlightedNodes s
   \<and> highlightedEdges (later s) = highlightedEdges s
   \<and> selectedNodeId (later s) = selectedNodeId s"
  "nodesDataset (settle s) = nodesDataset s \<and> edgesDataset (settle s) = edgesDataset s
   \<and> highlightedNodes (settle s) = highlightedNodes s
   \<and> highlightedEdges (settle s) = highlightedEdges s
   \<and> selectedNodeId (settle s) = selectedNodeId s"
  "nodesDataset (keystrokes wait [(now, v)] s) = nodesDataset s
   \<and> edgesDataset (keystrokes wait [(now, v)] s) = edgesDataset s
   \<and> highlightedNodes (keystrokes wait [(now, v)] s) = highlightedNodes s
   \<and> highlightedEdges (keystrokes wait [(now, v)] s) = highlightedEdges s
   \<and> selectedNodeId (keystrokes wait [(now, v)] s) = selectedNodeId s"
  by (simp_all add: later_def settle_def searchNodes_request_def Let_def executedFunction_def
      run_due_def split: option.splits)

lemma searchAndFocusNode_frame:
  "nodesDataset (searchAndFocusNode wanted s) = nodesDataset s
   \<and> edgesDataset (searchAndFocusNode wanted s) = edgesDataset s
   \<and> highlightedNodes (searchAndFocusNode wanted s) = highlightedNodes s
   \<and> highlightedEdges (searchAndFocusNode wanted s) = highlightedEdges s
   \<and> (nodesDataset s = None \<longrightarrow>
         selectedNodeId (searchAndFocusNode wanted s) = selectedNodeId s)"
  by (simp add: searchAndFocusNode_def Let_def selectNode_def showToast_def existingNode_def
      split: option.splits list.splits)

lemma toast_inv:
  assumes "page_inv s"
  shows "page_inv (showToast m k s)"
  using assms by (rule inv_frame) (simp_all add: showToast_def fresh_selection [OF assms])

lemma query_failed_inv:
  assumes "page_inv s"
  shows "page_inv (query_failed m s)"
  using assms
  by (rule inv_frame) (simp_all add: query_failed_def showToast_def fresh_selection [OF assms])

lemma executeQuery_response_inv:
  assumes "page_inv s"
  shows "page_inv (executeQuery_response response s)"
proof (cases response)
  case (NetworkFailure m)
  then show ?thesis using assms by (simp add: executeQuery_response_def query_failed_inv)
next
  case (HttpError body)
  then show ?thesis using assms
    by (cases body) (simp_all add: executeQuery_response_def query_failed_inv)
next
  case (HttpOk result)
  define s0 where "s0 = displayQueryResult result s"
  have v0: "page_inv s0"
    unfolding s0_def using assms
    by (rule inv_frame) (simp_all add: displayQueryResult_def fresh_selection [OF assms])
  have n0: "nodesDataset s0 = nodesDataset s" by (simp add: s0_def displayQueryResult_def)
  have "\<exists>s'. highlightQueryPath result s0 = Done s' \<and> page_inv s'"
  proof (cases "nodesDataset s0")
    case None
    have "page_inv (s0\<lparr>highlightedNodes := [], highlightedEdges := []\<rparr>)"
      using v0 by (rule inv_frame) (simp_all add: None v0 [unfolded page_inv_fresh [OF None]])
    then show ?thesis using highlightQueryPath_fresh [OF v0 None] by simp
  next
    case (Some ds)
    then have "nodesDataset s0 \<noteq> None" by simp
    from highlightQueryPath_steps [OF v0 this] show ?thesis by blast
  qed
  then obtain s' where r: "highlightQueryPath result s0 = Done s'" and v: "page_inv s'" by blast
  show ?thesis
    using HttpOk r v by (simp add: executeQuery_response_def s0_def [symmetric] toast_inv)
qed

lemma clearHighlights_inv:
  assumes "page_inv s"
  shows "\<exists>s'. clearHighlights s = Done s' \<and> page_inv s'
           \<and> (nodesDataset s = None \<longleftrightarrow> nodesDataset s' = None)"
proof (cases "nodesDataset s")
  case None
  note inv = assms [unfolded page_inv_fresh [OF None]]
  have "page_inv (s\<lparr>highlightedNodes := [], highlightedEdges := []\<rparr>)"
    using assms by (rule inv_frame) (simp_all add: None inv)
  then show ?thesis using clearHighlights_fresh [of s] inv None by simp
next
  case (Some ds)
  then have l: "nodesDataset s \<noteq> None" by simp
  from inv_clear [OF assms l] obtain s' where "clearHighlights s = Done s'" "page_inv s'"
    "grows s s'" by blast
  then show ?thesis using l grows_initialised by blast
qed

lemma handle_inv:
  assumes "page_inv s"
  shows "page_inv (handle e s)"
proof (cases e)
  case (NodeClicked i)
  show ?thesis
  proof (cases "existingNode i s")
    case None
    then show ?thesis using NodeClicked assms by (simp add: handle_def)
  next
    case (Some n)
    then have "nodesDataset s \<noteq> None" by (auto simp: existingNode_def split: option.splits)
    then have "page_inv (selectNode i s)"
      using assms by (intro inv_frame [OF assms]) (simp_all add: selectNode_def)
    then show ?thesis using NodeClicked Some by (simp add: handle_def)
  qed
next
  case CanvasClicked
  have "page_inv (clearNodeSelection s)"
    using assms by (rule inv_frame) (simp_all add: clearNodeSelection_def)
  then show ?thesis using CanvasClicked by (simp add: handle_def)
next
  case (NodePicked wanted)
  have "page_inv (searchAndFocusNode wanted s)"
    using assms
    by (rule inv_frame) (simp_all add: searchAndFocusNode_frame fresh_selection [OF assms])
  then show ?thesis using NodePicked by (simp add: handle_def)
next
  case (SearchResultClicked wanted)
  have "page_inv ((searchAndFocusNode wanted s)\<lparr>search_results := [], node_search := []\<rparr>)"
    using assms
    by (rule inv_frame) (simp_all add: searchAndFocusNode_frame fresh_selection [OF assms])
  then show ?thesis using SearchResultClicked by (simp add: handle_def)
next
  case (KeyTyped now v)
  have "page_inv (keystrokes 300 [(now, v)] s)"
    using assms
    by (rule inv_frame)
       (use search_field_frame(3) [of 300 now v s] fresh_selection [OF assms] in simp_all)
  then show ?thesis using KeyTyped by (simp only: handle_def event.case)
next
  case TimerFired
  have "page_inv (settle s)"
    using assms
    by (rule inv_frame)
       (use search_field_frame(2) [of s] fresh_selection [OF assms] in simp_all)
  then show ?thesis using TimerFired by (simp only: handle_def event.case)
next
  case (QuerySubmitted v)
  have "page_inv (fst (executeQuery_request (s\<lparr>query_input := v\<rparr>)))"
    using assms
    by (rule inv_frame)
       (simp_all add: executeQuery_request_def Let_def showToast_def fresh_selection [OF assms])
  then show ?thesis using QuerySubmitted by (simp add: handle_def)
next
  case (QueryAnswered response)
  then show ?thesis using executeQuery_response_inv [OF assms] by (simp add: handle_def)
next
  case (TraversalShown direction response)
  have "page_inv (state_of (showTraversal direction response s))"
  proof (cases "nodesDataset s")
    case None
    then have "selectedNodeId s = None" using assms by (simp add: fresh_selection)
    then show ?thesis by (simp add: showTraversal_def state_of_def toast_inv [OF assms])
  next
    case (Some ds)
    then have "nodesDataset s \<noteq> None" by simp
    then show ?thesis by (rule showTraversal_inv [OF assms])
  qed
  then show ?thesis using TraversalShown by (simp add: handle_def)
next
  case (SearchAnswered query response)
  have "page_inv (searchNodes_response query response s)"
    using assms
    by (rule inv_frame)
       (cases response;
        simp add: searchNodes_response_def displaySearchResults_def Let_def
          fresh_selection [OF assms])+
  then show ?thesis using SearchAnswered by (simp add: handle_def)
next
  case (TiersChanged tiers)
  have "page_inv (s\<lparr>tier_checked := tiers\<rparr>)"
    using assms by (rule inv_frame) (simp_all add: fresh_selection [OF assms])
  then have "page_inv (filterGraph (s\<lparr>tier_checked := tiers\<rparr>))" by (rule filterGraph_inv)
  then show ?thesis using TiersChanged by (simp add: handle_def)
next
  case HighlightsCleared
  from clearHighlights_inv [OF assms] obtain s' where "clearHighlights s = Done s'" "page_inv s'"
    by blast
  then show ?thesis using HighlightsCleared by (simp add: handle_def state_of_def)
next
  case ViewReset
  from clearHighlights_inv [OF assms] obtain s' where r: "clearHighlights s = Done s'"
    and v: "page_inv s'" by blast
  have "page_inv (clearNodeSelection s')"
    using v by (rule inv_frame) (simp_all add: clearNodeSelection_def)
  then show ?thesis
    using ViewReset r by (simp add: handle_def resetView_def and_then_def state_of_def)
qed

lemma run_inv: "page_inv s \<Longrightarrow> page_inv (run events s)"
  unfolding run_def by (induction events arbitrary: s) (simp_all add: handle_inv)

lemma initial_inv: "page_inv initial_state"
  by (simp add: page_inv_def initial_state_def)

lemma handle_fresh:
  assumes "page_inv s" and "nodesDataset s = None"
  shows "nodesDataset (handle e s) = None"
proof -
  note inv = assms(1) [unfolded page_inv_fresh [OF assms(2)]]
  show ?thesis
  proof (cases e)
    case (QueryAnswered response)
    have "nodesDataset (executeQuery_response response s) = None"
    proof (cases response)
      case (HttpOk result)
      define s0 where "s0 = displayQueryResult result s"
      have v0: "page_inv s0"
        unfolding s0_def using assms(1)
        by (rule inv_frame) (simp_all add: displayQueryResult_def inv)
      have n0: "nodesDataset s0 = None" using assms(2) by (simp add: s0_def displayQueryResult_def)
      show ?thesis
        using HttpOk highlightQueryPath_fresh [OF v0 n0, of result] n0
        by (simp add: executeQuery_response_def s0_def [symmetric] showToast_def)
    next
      case (NetworkFailure m)
      then show ?thesis using assms(2)
        by (simp add: executeQuery_response_def query_failed_def showToast_def)
    next
      case (HttpError body)
      then show ?thesis using assms(2)
        by (cases body) (simp_all add: executeQuery_response_def query_failed_def showToast_def)
    qed
    then show ?thesis using QueryAnswered by (simp add: handle_def)
  next
    case (SearchAnswered query response)
    then show ?thesis using assms(2)
      by (cases response)
         (simp_all add: handle_def searchNodes_response_def displaySearchResults_def Let_def)
  next
    case (KeyTyped now v)
    then show ?thesis
      using assms(2) search_field_frame(3) [of 300 now v s] by (simp add: handle_def)
  next
    case TimerFired
    then show ?thesis
      using assms(2) search_field_frame(2) [of s] by (simp add: handle_def)
  next
    case (NodePicked wanted)
    then show ?thesis using assms(2) by (simp add: handle_def searchAndFocusNode_frame)
  next
    case (SearchResultClicked wanted)
    then show ?thesis using assms(2) by (simp add: handle_def searchAndFocusNode_frame)
  qed (simp_all add: handle_def existingNode_def selectNode_def clearNodeSelection_def
        searchAndFocusNode_def showToast_def executeQuery_request_def Let_def
        showTraversal_def state_of_def filterGraph_def clearHighlights_fresh resetView_def
        and_then_def assms(2) inv)
qed

lemma run_fresh:
  assumes "page_inv s" and "nodesDataset s = None"
  shows "nodesDataset (run events s) = None"
  using assms unfolding run_def
  by (induction events arbitrary: s) (simp_all add: handle_inv handle_fresh)

lemma page_inv_page: "page_inv (page before export after)"
  unfolding page_def
  by (intro run_inv loadGraphData_inv initial_inv run_fresh)
     (simp add: initial_state_def)


subsection \<open>The dataset along a session\<close>






lemma result_ids_list:
  "set (filter (\<lambda>i. i \<noteq> [])
          (map n_id (concat (map (\<lambda>x. case x of None \<Rightarrow> [] | Some n \<Rightarrow> [n]) xs))))
     = set (List.map_filter truthy_id xs)"
  by (induction xs)
     (auto simp: List.map_filter_def truthy_id_def split: option.splits if_splits)

lemma result_ids_code: "set (result_node_ids result) = highlightedIds (nodesToHighlight result)"
proof (cases "q_context_debug result")
  case None
  then show ?thesis
    by (simp add: result_node_ids_def highlightedIds_def nodesToHighlight_def List.map_filter_def)
next
  case (Some debug)
  define T where "T = (case target_node debug of None \<Rightarrow> [] | Some t \<Rightarrow> [t])"
  define U where "U = (case upstream_nodes debug of None \<Rightarrow> [] | Some us \<Rightarrow> us)"
  define D where "D = (case downstream_nodes debug of None \<Rightarrow> [] | Some ds \<Rightarrow> ds)"
  let ?flat = "\<lambda>xs. concat (map (\<lambda>x. case x of None \<Rightarrow> [] | Some n \<Rightarrow> [n]) xs)"
  have app: "List.map_filter truthy_id (xs @ ys)
               = List.map_filter truthy_id xs @ List.map_filter truthy_id ys" for xs ys
    by (simp add: List.map_filter_def)
  have r: "result_node_ids result
             = filter (\<lambda>i. i \<noteq> []) (map n_id T)
               @ filter (\<lambda>i. i \<noteq> []) (map n_id (?flat U))
               @ filter (\<lambda>i. i \<noteq> []) (map n_id (?flat D))"
    using Some by (simp add: result_node_ids_def T_def U_def D_def)
  have n: "nodesToHighlight result = map Some T @ U @ D"
    using Some by (cases "target_node debug") (simp_all add: nodesToHighlight_def T_def U_def D_def)
  have t: "set (filter (\<lambda>i. i \<noteq> []) (map n_id T)) = set (List.map_filter truthy_id (map Some T))"
    by (induction T) (auto simp: List.map_filter_def truthy_id_def)
  show ?thesis
    by (simp only: r n highlightedIds_def app set_append t result_ids_list)
qed


subsection \<open>Highlighting and unhighlighting a node of a page\<close>



subsection \<open>Inserting nodes\<close>




subsection \<open>Applying a query result to a page\<close>

lemma query_highlight_loaded:
  assumes "page_inv s" and "nodesDataset s \<noteq> None"
  shows "\<exists>s'. highlightQueryPath result s = Done s' \<and> page_inv s' \<and> nodesDataset s' \<noteq> None
          \<and> set (highlightedNodes s')
              = set (result_node_ids result) \<union> set (path_matches (pathLabels result) (loaded_nodes s'))
          \<and> set (result_node_ids result) \<subseteq> v_id ` set (loaded_nodes s')
          \<and> set (highlightedEdges s')
              = set (edges_between (set (result_node_ids result)) (loaded_edges s'))
          \<and> (\<forall>i. if i \<in> set (highlightedNodes s')
                   then \<exists>n. existingNode i s' = Some n \<and> looks_highlighted n
                   else existingNode i s'
                          = map_option (\<lambda>n. if i \<in> set (highlightedNodes s)
                                              then unhighlighted n else n) (existingNode i s))
          \<and> (\<forall>j. if j \<in> set (highlightedEdges s')
                   then \<exists>e. existingEdge j s' = Some e \<and> edge_looks_highlighted e
                   else existingEdge j s'
                          = map_option (\<lambda>e. if j \<in> set (highlightedEdges s)
                                              then edge_at_rest e else e) (existingEdge j s))
          \<and> (\<exists>s''. highlightQueryPath result s' = Done s''
                 \<and> set (highlightedNodes s'') = set (highlightedNodes s')
                 \<and> set (highlightedEdges s'') = set (highlightedEdges s'))"
proof -
  define H where "H = set (result_node_ids result)"
  have Hc: "highlightedIds (nodesToHighlight result) = H"
    by (simp add: H_def result_ids_code)
  from assms(2) obtain ds where ds: "nodesDataset s = Some ds" by auto
  from highlightQueryPath_steps [OF assms, of result]
  obtain s0 s1 where r1: "highlightQueryPath result s = Done s1"
    and h0: "highlightedNodes s0 = []" "highlightedEdges s0 = []"
    and ln: "\<And>j. existingNode j s0
                = (if j \<in> set (highlightedNodes s)
                   then map_option unhighlighted (existingNode j s) else existingNode j s)"
    and le: "\<And>j. existingEdge j s0
                = (if j \<in> set (highlightedEdges s)
                   then map_option edge_at_rest (existingEdge j s) else existingEdge j s)"
    and st: "highlight_step s0 s1" and v1: "page_inv s1" and g01: "grows s0 s1"
    by blast
  have l1: "nodesDataset s1 \<noteq> None" using g01 grows_initialised by blast
  note inv1 = v1 [unfolded page_inv_loaded [OF l1]]
  from highlightQueryPath_summary [OF ds, of result]
  obtain ds1 where d1: "nodesDataset s1 = Some ds1"
    and n1: "set (highlightedNodes s1) = H \<union> set (path_matches (pathLabels result) ds1)"
    and p1: "H \<subseteq> v_id ` set ds1"
    and e1: "set (highlightedEdges s1)
              = (case edgesDataset s1 of None \<Rightarrow> {} | Some es \<Rightarrow> set (edges_between H es))"
    and sub1: "set (highlightedEdges s1) \<subseteq> edge_ids s1"
    unfolding Hc using r1 by auto
  from highlightQueryPath_summary [OF d1, of result]
  obtain s2 ds2 where r2: "highlightQueryPath result s1 = Done s2" and d2: "nodesDataset s2 = Some ds2"
    and n2: "set (highlightedNodes s2) = H \<union> set (path_matches (pathLabels result) ds2)"
    and e2: "set (highlightedEdges s2)
              = (case edgesDataset s2 of None \<Rightarrow> {} | Some es \<Rightarrow> set (edges_between H es))"
    and keep: "H \<subseteq> v_id ` set ds1 \<and> set (highlightedEdges s1) \<subseteq> edge_ids s1
               \<longrightarrow> map canonical ds2 = map canonical ds1 \<and> edge_keys s2 = edge_keys s1"
    unfolding Hc by blast
  from keep p1 sub1 have c: "map canonical ds2 = map canonical ds1"
    and k: "edge_keys s2 = edge_keys s1" by simp_all
  have "path_matches (pathLabels result) ds2 = path_matches (pathLabels result) ds1"
    using c by (rule path_matches_cong)
  then have same_n: "set (highlightedNodes s2) = set (highlightedNodes s1)"
    using n1 n2 by simp
  have same_e: "set (highlightedEdges s2) = set (highlightedEdges s1)"
  proof (cases "edgesDataset s1")
    case None
    then have "edgesDataset s2 = None" using k by (simp add: edge_keys_def)
    then show ?thesis using e1 e2 None by simp
  next
    case (Some es1)
    then obtain es2 where es2: "edgesDataset s2 = Some es2" and "map ekey es2 = map ekey es1"
      using k by (auto simp: edge_keys_def)
    then have "edges_between H es2 = edges_between H es1"
      by (simp add: edges_between_of_keys)
    then show ?thesis using e1 e2 Some es2 by simp
  qed
  have again: "\<exists>s''. highlightQueryPath result s1 = Done s''
                 \<and> set (highlightedNodes s'') = set (highlightedNodes s1)
                 \<and> set (highlightedEdges s'') = set (highlightedEdges s1)"
    using r2 same_n same_e by blast
  have nodes: "set (highlightedNodes s1)
                 = H \<union> set (path_matches (pathLabels result) (loaded_nodes s1))"
    using n1 d1 by (simp add: loaded_nodes_def)
  have pres: "H \<subseteq> v_id ` set (loaded_nodes s1)"
    using p1 d1 by (simp add: loaded_nodes_def)
  have edges: "set (highlightedEdges s1) = set (edges_between H (loaded_edges s1))"
    using e1 by (cases "edgesDataset s1") (simp_all add: loaded_edges_def edges_between_def)
  have sn: "(existingNode j s1 = existingNode j s0
              \<and> (j \<in> set (highlightedNodes s1) \<longleftrightarrow> j \<in> set (highlightedNodes s0)))
            \<or> (j \<in> set (highlightedNodes s1)
                \<and> (\<exists>n. existingNode j s1 = Some n \<and> looks_highlighted n))" for j
    using st unfolding highlight_step_def by blast
  have se: "(existingEdge j s1 = existingEdge j s0
              \<and> (j \<in> set (highlightedEdges s1) \<longleftrightarrow> j \<in> set (highlightedEdges s0)))
            \<or> (j \<in> set (highlightedEdges s1)
                \<and> (\<exists>e. existingEdge j s1 = Some e \<and> edge_looks_highlighted e))" for j
    using st unfolding highlight_step_def by blast
  have look_n: "if i \<in> set (highlightedNodes s1)
                then \<exists>n. existingNode i s1 = Some n \<and> looks_highlighted n
                else existingNode i s1
                       = map_option (\<lambda>n. if i \<in> set (highlightedNodes s)
                                           then unhighlighted n else n) (existingNode i s)" for i
  proof (cases "i \<in> set (highlightedNodes s1)")
    case True
    then show ?thesis using inv1 by auto
  next
    case False
    then have "existingNode i s1 = existingNode i s0" using sn [of i] by blast
    then show ?thesis using False ln [of i]
      by (cases "existingNode i s") simp_all
  qed
  have look_e: "if j \<in> set (highlightedEdges s1)
                then \<exists>e. existingEdge j s1 = Some e \<and> edge_looks_highlighted e
                else existingEdge j s1
                       = map_option (\<lambda>e. if j \<in> set (highlightedEdges s)
                                           then edge_at_rest e else e) (existingEdge j s)" for j
  proof (cases "j \<in> set (highlightedEdges s1)")
    case True
    then show ?thesis using inv1 by auto
  next
    case False
    then have "existingEdge j s1 = existingEdge j s0" using se [of j] by blast
    then show ?thesis using False le [of j]
      by (cases "existingEdge j s") simp_all
  qed
  show ?thesis
    unfolding H_def [symmetric]
    using r1 v1 l1 nodes pres edges look_n look_e again by blast
qed

lemma query_highlight_fresh:
  assumes "page_inv s" and "nodesDataset s = None"
  shows "\<exists>s'. highlightQueryPath result s = Done s' \<and> page_inv s' \<and> nodesDataset s' = None
          \<and> highlightedNodes s' = [] \<and> highlightedEdges s' = []
          \<and> highlightedNodes s = [] \<and> highlightedEdges s = []
          \<and> loaded_nodes s' = [] \<and> loaded_edges s' = []
          \<and> (\<forall>i. existingNode i s' = None \<and> existingNode i s = None)
          \<and> (\<forall>j. existingEdge j s' = None \<and> existingEdge j s = None)"
proof -
  let ?s1 = "s\<lparr>highlightedNodes := [], highlightedEdges := []\<rparr>"
  note inv = assms(1) [unfolded page_inv_fresh [OF assms(2)]]
  have r: "highlightQueryPath result s = Done ?s1"
    by (rule highlightQueryPath_fresh [OF assms])
  have v: "page_inv ?s1"
    using assms(1) by (rule inv_frame) (simp_all add: inv)
  show ?thesis
    using r v inv assms(2)
    by (simp add: loaded_nodes_def loaded_edges_def existingNode_def existingEdge_def)
qed

text \<open>
  C4, as the code has it. On every page of a session, applying a query result runs to its
  end. Afterwards the highlighted nodes are the target, upstream and downstream ids that
  are in the dataset (all of them when the node dataset exists, none on a page without
  one) together with the ids of the dataset items whose label equals, case-insensitively,
  a label of the result's path source; with no path source, on a page with a node
  dataset, that is the target, upstream and downstream set alone. The highlighted edges
  are the dataset edges between two of the target, upstream and downstream nodes. The
  prior highlight is cleared: every node and edge highlighted afterwards is in its dataset
  and has the highlighted look, and every other node and edge is as it was before, with
  its colour, size and font (colour and width for an edge) set back if it was highlighted
  before. Applying the same result again gives the same two sets.
\<close>

theorem query_highlight_sets:
  assumes "s = page before export after"
  shows "\<exists>s'. highlightQueryPath result s = Done s'
          \<and> set (highlightedNodes s')
              = (set (result_node_ids result) \<inter> v_id ` set (loaded_nodes s'))
                \<union> set (path_matches (pathLabels result) (loaded_nodes s'))
          \<and> (nodesDataset s \<noteq> None \<longrightarrow>
                set (result_node_ids result) \<subseteq> v_id ` set (loaded_nodes s'))
          \<and> (nodesDataset s \<noteq> None \<longrightarrow> pathLabels result = [] \<longrightarrow>
                set (highlightedNodes s') = set (result_node_ids result))
          \<and> set (highlightedEdges s')
              = set (edges_between (set (result_node_ids result)) (loaded_edges s'))
          \<and> (\<forall>i. if i \<in> set (highlightedNodes s')
                   then \<exists>n. existingNode i s' = Some n \<and> looks_highlighted n
                   else existingNode i s'
                          = map_option (\<lambda>n. if i \<in> set (highlightedNodes s)
                                              then unhighlighted n else n) (existingNode i s))
          \<and> (\<forall>j. if j \<in> set (highlightedEdges s')
                   then \<exists>e. existingEdge j s' = Some e \<and> edge_looks_highlighted e
                   else existingEdge j s'
                          = map_option (\<lambda>e. if j \<in> set (highlightedEdges s)
                                              then edge_at_rest e else e) (existingEdge j s))
          \<and> (\<exists>s''. highlightQueryPath result s' = Done s''
                 \<and> set (highlightedNodes s'') = set (highlightedNodes s')
                 \<and> set (highlightedEdges s'') = set (highlightedEdges s'))"
proof (cases "nodesDataset s")
  case None
  have inv: "page_inv s" unfolding assms by (rule page_inv_page)
  from query_highlight_fresh [OF inv None, of result]
  obtain s' where r: "highlightQueryPath result s = Done s'" and v: "page_inv s'"
    and n: "nodesDataset s' = None"
    and h: "highlightedNodes s' = []" "highlightedEdges s' = []"
    and l: "loaded_nodes s' = []" "loaded_edges s' = []"
    and x: "\<And>i. existingNode i s' = None \<and> existingNode i s = None"
      "\<And>j. existingEdge j s' = None \<and> existingEdge j s = None"
    by blast
  from query_highlight_fresh [OF v n, of result]
  obtain s'' where r': "highlightQueryPath result s' = Done s''"
    and h': "highlightedNodes s'' = []" "highlightedEdges s'' = []"
    by blast
  have "\<exists>s''. highlightQueryPath result s' = Done s''
          \<and> set (highlightedNodes s'') = set (highlightedNodes s')
          \<and> set (highlightedEdges s'') = set (highlightedEdges s')"
    using r' h h' by simp
  then show ?thesis
    using r None h l x by (simp add: path_matches_def edges_between_def)
next
  case (Some ds)
  have inv: "page_inv s" unfolding assms by (rule page_inv_page)
  have l: "nodesDataset s \<noteq> None" using Some by simp
  from query_highlight_loaded [OF inv l, of result]
  obtain s' where r: "highlightQueryPath result s = Done s'"
    and nodes: "set (highlightedNodes s')
              = set (result_node_ids result) \<union> set (path_matches (pathLabels result) (loaded_nodes s'))"
    and pres: "set (result_node_ids result) \<subseteq> v_id ` set (loaded_nodes s')"
    and edges: "set (highlightedEdges s')
              = set (edges_between (set (result_node_ids result)) (loaded_edges s'))"
    and look_n: "\<forall>i. if i \<in> set (highlightedNodes s')
                   then \<exists>n. existingNode i s' = Some n \<and> looks_highlighted n
                   else existingNode i s'
                          = map_option (\<lambda>n. if i \<in> set (highlightedNodes s)
                                              then unhighlighted n else n) (existingNode i s)"
    and look_e: "\<forall>j. if j \<in> set (highlightedEdges s')
                   then \<exists>e. existingEdge j s' = Some e \<and> edge_looks_highlighted e
                   else existingEdge j s'
                          = map_option (\<lambda>e. if j \<in> set (highlightedEdges s)
                                              then edge_at_rest e else e) (existingEdge j s)"
    and again: "\<exists>s''. highlightQueryPath result s' = Done s''
                 \<and> set (highlightedNodes s'') = set (highlightedNodes s')
                 \<and> set (highlightedEdges s'') = set (highlightedEdges s')"
    by blast
  have n1: "set (highlightedNodes s')
              = (set (result_node_ids result) \<inter> v_id ` set (loaded_nodes s'))
                \<union> set (path_matches (pathLabels result) (loaded_nodes s'))"
    using nodes pres by blast
  have n2: "set (highlightedNodes s') = set (result_node_ids result)" if "pathLabels result = []"
    using nodes that by (simp add: path_matches_def)
  show ?thesis
    using r n1 pres n2 edges look_n look_e again by blast
qed

text \<open>
  The scenario of the specification: on the export with nodes A and B and the edge from A
  to B, the result with target B and upstream node A highlights A, B and that edge. And
  when the result that refers to C was applied before, so that C is in the dataset and
  highlighted, applying the result with B and A leaves C not highlighted, blue and of
  size 15 again.
\<close>

theorem query_highlight_sets_witness:
  "(\<exists>s'. highlightQueryPath query_AB (page [] export_AB []) = Done s'
          \<and> set (highlightedNodes s') = {''A'', ''B''}
          \<and> set (highlightedEdges s') = {''edge-0''}
          \<and> (\<exists>n. existingNode ''A'' s' = Some n \<and> looks_highlighted n))
   \<and> (\<exists>s'. highlightQueryPath query_AB (page [] export_AB [QueryAnswered (HttpOk query_C)])
                 = Done s'
          \<and> ''C'' \<in> set (highlightedNodes (page [] export_AB [QueryAnswered (HttpOk query_C)]))
          \<and> ''C'' \<notin> set (highlightedNodes s')
          \<and> (\<exists>n. existingNode ''C'' s' = Some n
                 \<and> v_color n = Some ''#3b82f6'' \<and> v_size n = 15))"
proof -
  have p: "pathLabels query_AB = []"
    by code_simp
  have i: "result_node_ids query_AB = [''B'', ''A'']"
    by code_simp
  have first: "\<exists>s'. highlightQueryPath query_AB (page [] export_AB []) = Done s'
          \<and> set (highlightedNodes s') = {''A'', ''B''}
          \<and> set (highlightedEdges s') = {''edge-0''}
          \<and> (\<exists>n. existingNode ''A'' s' = Some n \<and> looks_highlighted n)"
  proof -
    have h1: "nodesDataset (page [] export_AB []) \<noteq> None"
      by code_simp
    from query_highlight_sets [where s = "page [] export_AB []" and before = "[]"
        and export = export_AB and after = "[]" and result = query_AB, OF refl]
    obtain s' where r: "highlightQueryPath query_AB (page [] export_AB []) = Done s'"
      and n: "nodesDataset (page [] export_AB []) \<noteq> None \<longrightarrow> pathLabels query_AB = [] \<longrightarrow>
                set (highlightedNodes s') = set (result_node_ids query_AB)"
      and e: "set (highlightedEdges s')
                = set (edges_between (set (result_node_ids query_AB)) (loaded_edges s'))"
      and l: "\<forall>i. if i \<in> set (highlightedNodes s')
                   then \<exists>n. existingNode i s' = Some n \<and> looks_highlighted n
                   else existingNode i s'
                          = map_option (\<lambda>n. if i \<in> set (highlightedNodes (page [] export_AB []))
                                              then unhighlighted n else n)
                              (existingNode i (page [] export_AB []))"
      by blast
    have s': "s' = state_of (highlightQueryPath query_AB (page [] export_AB []))"
      using r by (simp add: state_of_def)
    have ee: "edges_between (set (result_node_ids query_AB))
                (loaded_edges (state_of (highlightQueryPath query_AB (page [] export_AB []))))
              = [''edge-0'']"
      by code_simp
    have hn: "set (highlightedNodes s') = {''A'', ''B''}"
      using n h1 p i by auto
    have "edges_between (set (result_node_ids query_AB)) (loaded_edges s') = [''edge-0'']"
      unfolding s' by (rule ee)
    then have he: "set (highlightedEdges s') = {''edge-0''}"
      using e by simp
    have "''A'' \<in> set (highlightedNodes s')"
      using hn by simp
    then have ex: "\<exists>n. existingNode ''A'' s' = Some n \<and> looks_highlighted n"
      using spec [OF l, of "''A''"] by simp
    show ?thesis
      using r hn he ex by blast
  qed
  have second: "\<exists>s'. highlightQueryPath query_AB (page [] export_AB [QueryAnswered (HttpOk query_C)])
                 = Done s'
          \<and> ''C'' \<in> set (highlightedNodes (page [] export_AB [QueryAnswered (HttpOk query_C)]))
          \<and> ''C'' \<notin> set (highlightedNodes s')
          \<and> (\<exists>n. existingNode ''C'' s' = Some n
                 \<and> v_color n = Some ''#3b82f6'' \<and> v_size n = 15)"
  proof -
    define s where "s = page [] export_AB [QueryAnswered (HttpOk query_C)]"
    have h1: "nodesDataset s \<noteq> None"
      unfolding s_def by code_simp
    have c: "''C'' \<in> set (highlightedNodes s)"
      unfolding s_def by code_simp
    have x: "map_option (\<lambda>n. (v_color (unhighlighted n), v_size (unhighlighted n)))
               (existingNode ''C'' s)
             = Some (Some ''#3b82f6'', 15)"
      unfolding s_def by code_simp
    from query_highlight_sets [where s = s and before = "[]" and export = export_AB
        and after = "[QueryAnswered (HttpOk query_C)]" and result = query_AB, OF s_def]
    obtain s' where r: "highlightQueryPath query_AB s = Done s'"
      and n: "nodesDataset s \<noteq> None \<longrightarrow> pathLabels query_AB = [] \<longrightarrow>
                set (highlightedNodes s') = set (result_node_ids query_AB)"
      and l: "\<forall>i. if i \<in> set (highlightedNodes s')
                   then \<exists>n. existingNode i s' = Some n \<and> looks_highlighted n
                   else existingNode i s'
                          = map_option (\<lambda>n. if i \<in> set (highlightedNodes s)
                                              then unhighlighted n else n)
                              (existingNode i s)"
      by blast
    have hn: "set (highlightedNodes s') = {''A'', ''B''}"
      using n h1 p i by auto
    then have nc: "''C'' \<notin> set (highlightedNodes s')" by simp
    have "existingNode ''C'' s' = map_option unhighlighted (existingNode ''C'' s)"
      using spec [OF l, of "''C''"] nc c by simp
    then have "\<exists>n. existingNode ''C'' s' = Some n
                 \<and> v_color n = Some ''#3b82f6'' \<and> v_size n = 15"
      using x by (cases "existingNode ''C'' s") auto
    then show ?thesis
      using r c nc unfolding s_def by blast
  qed
  show ?thesis
    using first second by blast
qed

text \<open>
  C4 as stated fails: with the path source \<^verbatim>\<open>a -> x\<close> in the result, node X is highlighted
  too, although it is neither the target nor an upstream or downstream node.
\<close>

theorem path_labels_extend_highlight:
  "highlightedNodes (state_of (highlightQueryPath query_AB_path loaded_ABX)) = [''B'', ''A'', ''X'']
   \<and> List.map_filter truthy_id (nodesToHighlight query_AB_path) = [''B'', ''A'']"
  by code_simp

end
